(* ===== verification/Prelude.thy ===== *)
theory Prelude
  imports Main "HOL-Library.Signed_Division" "HOL-Library.Multiset" "HOL-Library.Word"
begin

text \<open>
  The C vocabulary shared by every component of the model of
  \<^verbatim>\<open>src/mattbot.euclid/euclid.c\<close>: the integer types, the faults that stand for
  the undefined behaviour of an out-of-range array index or a division by zero,
  bounds-checked array access on lists, an error-propagating bind, and the
  NUL-terminated byte buffers that the string functions \<open>strcpy\<close>, \<open>strcat\<close>
  and \<open>strlen\<close> operate on. The definitions come first, then the generic
  lemmas about them, collected in \<open>c_ops\<close> and declared \<open>[simp]\<close> where they
  only rewrite closed forms, and the lemmas on lists of rows.
\<close>

named_theorems c_ops "equations of the C vocabulary for bounds-checked access"

section \<open>Types\<close>

type_synonym c_int = int
type_synonym c_long = int

text \<open>
  A \<^emph>\<open>row\<close> (\<open>c_str\<close>) is the content of a \<open>char[64]\<close> row up to its
  terminator; the code only reads rows through \<open>strcmp\<close> and \<open>strcat\<close>, so the
  bytes after the terminator never matter. A \<^emph>\<open>buffer\<close> (\<open>c_buf\<close>) is the
  raw byte content of a \<open>char\<close> array that the code also reads by index.
\<close>

type_synonym c_str = string
type_synonym c_buf = "char list"

datatype fault = Index_out_of_bounds | Division_by_zero

text \<open>
  Assigning a \<open>long\<close> to an \<open>int\<close> (a parameter or a field) keeps the low 32
  bits, read as two's complement (the conversion of the compilers the object
  is built with; C leaves it implementation-defined). \<open>fits_int\<close> is the range
  in which it is the identity.
\<close>

definition c_int_of_long :: "c_long \<Rightarrow> c_int" where
  "c_int_of_long v = sint (word_of_int v :: 32 word)"

definition fits_int :: "c_long \<Rightarrow> bool" where
  "fits_int v \<longleftrightarrow> - (2 ^ 31) \<le> v \<and> v < 2 ^ 31"

section \<open>Error propagation\<close>

definition fbind :: "fault + 'a \<Rightarrow> ('a \<Rightarrow> fault + 'b) \<Rightarrow> fault + 'b" where
  "fbind m f = (case m of Inl e \<Rightarrow> Inl e | Inr a \<Rightarrow> f a)"

section \<open>Bounds-checked arrays\<close>

definition arr_read :: "'a list \<Rightarrow> int \<Rightarrow> fault + 'a" where
  "arr_read xs i =
     (if 0 \<le> i \<and> i < int (length xs) then Inr (xs ! nat i) else Inl Index_out_of_bounds)"

definition arr_write :: "'a list \<Rightarrow> int \<Rightarrow> 'a \<Rightarrow> fault + 'a list" where
  "arr_write xs i v =
     (if 0 \<le> i \<and> i < int (length xs) then Inr (xs[nat i := v]) else Inl Index_out_of_bounds)"

section \<open>NUL-terminated byte buffers\<close>

definition NUL :: char where
  "NUL = CHR 0x00"

definition no_nul :: "c_str \<Rightarrow> bool" where
  "no_nul s \<longleftrightarrow> NUL \<notin> set s"

definition c_strlen :: "c_buf \<Rightarrow> nat" where
  "c_strlen b = length (takeWhile (\<lambda>c. c \<noteq> NUL) b)"

text \<open>\<open>strcpy(b, s)\<close>: the bytes of \<open>s\<close> and a terminator over the front of \<open>b\<close>.\<close>

definition c_strcpy :: "c_buf \<Rightarrow> c_str \<Rightarrow> c_buf" where
  "c_strcpy b s = s @ [NUL] @ drop (Suc (length s)) b"

text \<open>\<open>strcat(b, s)\<close>: \<open>s\<close> and a terminator written from \<open>strlen(b)\<close> on.\<close>

definition c_strcat :: "c_buf \<Rightarrow> c_str \<Rightarrow> c_buf" where
  "c_strcat b s =
     (let n = c_strlen b in take n b @ s @ [NUL] @ drop (n + Suc (length s)) b)"

text \<open>
  \<open>b[i]\<close>: a byte of the buffer; bytes never written read as NUL, since the
  object's memory is allocated cleared.
\<close>

definition c_byte :: "c_buf \<Rightarrow> nat \<Rightarrow> char" where
  "c_byte b i = (if i < length b then b ! i else NUL)"

section \<open>Lemmas on integer narrowing\<close>

lemma c_int_of_long_id [simp]: "fits_int v \<Longrightarrow> c_int_of_long v = v"
  by (simp add: c_int_of_long_def fits_int_def sint_sbintrunc' signed_take_bit_int_eq_self)

lemma fits_int_small [simp]: "- 64 \<le> v \<Longrightarrow> v \<le> 128 \<Longrightarrow> fits_int v"
  by (simp add: fits_int_def)

section \<open>Lemmas on error propagation\<close>

lemma fbind_Inr [simp]: "fbind (Inr a) f = f a"
  by (simp add: fbind_def)

lemma fbind_Inl [simp]: "fbind (Inl e) f = Inl e"
  by (simp add: fbind_def)

lemma fbind_cong [fundef_cong]:
  "m = m' \<Longrightarrow> (\<And>a. m' = Inr a \<Longrightarrow> f a = g a) \<Longrightarrow> fbind m f = fbind m' g"
  by (cases m') (simp_all add: fbind_def)

text \<open>
  Only the first argument of \<open>fbind\<close> is simplified before it is known, as the
  datatype package does for \<open>case\<close>; so a recursive call under the bind is
  not unfolded before the value it depends on has been computed.
\<close>

lemma fbind_weak_cong [cong]: "m = m' \<Longrightarrow> fbind m f = fbind m' f"
  by simp

lemma fbind_eq_Inr:
  "fbind m f = Inr b \<longleftrightarrow> (\<exists>a. m = Inr a \<and> f a = Inr b)"
  by (cases m) (simp_all add: fbind_def)

lemma fbind_eq_Inl:
  "fbind m f = Inl e \<longleftrightarrow> m = Inl e \<or> (\<exists>a. m = Inr a \<and> f a = Inl e)"
  by (cases m) (simp_all add: fbind_def)

section \<open>Lemmas on bounds-checked arrays\<close>

lemma arr_read_nat [simp, c_ops]: "i < length xs \<Longrightarrow> arr_read xs (int i) = Inr (xs ! i)"
  by (simp add: arr_read_def)

lemma arr_write_nat [simp, c_ops]:
  "i < length xs \<Longrightarrow> arr_write xs (int i) v = Inr (xs[i := v])"
  by (simp add: arr_write_def)

lemma arr_read_int [c_ops]:
  "0 \<le> i \<Longrightarrow> i < int (length xs) \<Longrightarrow> arr_read xs i = Inr (xs ! nat i)"
  by (simp add: arr_read_def)

lemma arr_write_int [c_ops]:
  "0 \<le> i \<Longrightarrow> i < int (length xs) \<Longrightarrow> arr_write xs i v = Inr (xs[nat i := v])"
  by (simp add: arr_write_def)

lemma arr_read_Inl: "arr_read xs i = Inl e \<Longrightarrow> e = Index_out_of_bounds"
  by (simp add: arr_read_def split: if_splits)

lemma arr_write_Inl: "arr_write xs i v = Inl e \<Longrightarrow> e = Index_out_of_bounds"
  by (simp add: arr_write_def split: if_splits)

section \<open>Lemmas on byte buffers\<close>

lemma no_nul_append [simp]: "no_nul (s @ t) \<longleftrightarrow> no_nul s \<and> no_nul t"
  by (auto simp: no_nul_def)

lemma no_nul_01 [simp]: "no_nul ''0''" "no_nul ''1''" "no_nul []"
  by (simp_all add: no_nul_def NUL_def)

lemma no_nul_concat [simp]: "no_nul (concat ss) \<longleftrightarrow> (\<forall>s \<in> set ss. no_nul s)"
  by (auto simp: no_nul_def)

lemma takeWhile_no_nul:
  "no_nul s \<Longrightarrow> takeWhile (\<lambda>c. c \<noteq> NUL) (s @ NUL # r) = s"
  by (induction s) (auto simp: no_nul_def)

lemma c_strlen_strcpy [simp]: "no_nul s \<Longrightarrow> c_strlen (c_strcpy b s) = length s"
  by (simp add: c_strlen_def c_strcpy_def takeWhile_no_nul)

lemma c_strcat_strcpy [simp]:
  "no_nul s \<Longrightarrow> c_strcat (c_strcpy b s) t = c_strcpy b (s @ t)"
  by (simp add: c_strcat_def Let_def) (simp add: c_strcpy_def add.commute)

lemma c_byte_strcpy [simp]: "i < length s \<Longrightarrow> c_byte (c_strcpy b s) i = s ! i"
  by (simp add: c_byte_def c_strcpy_def nth_append)

lemma c_byte_strcpy_at_end [simp]: "c_byte (c_strcpy b s) (length s) = NUL"
  by (simp add: c_byte_def c_strcpy_def nth_append)

lemma takeWhile_NUL_less:
  "NUL \<in> set b \<Longrightarrow> length (takeWhile (\<lambda>c. c \<noteq> NUL) b) < length b"
  by (induction b) auto

lemma c_strcpy_terminated:
  assumes "NUL \<in> set b"
  shows "c_strcpy b (takeWhile (\<lambda>c. c \<noteq> NUL) b) = b"
proof -
  define n where "n = length (takeWhile (\<lambda>c. c \<noteq> NUL) b)"
  have n: "n < length b" using takeWhile_NUL_less [OF assms] by (simp add: n_def)
  have "b ! n = NUL" using n nth_length_takeWhile by (fastforce simp: n_def)
  then have "b = take n b @ NUL # drop (Suc n) b" using n by (metis id_take_nth_drop)
  moreover have "takeWhile (\<lambda>c. c \<noteq> NUL) b = take n b"
    by (simp add: n_def flip: takeWhile_eq_take)
  ultimately show ?thesis
    unfolding c_strcpy_def n_def
    by (metis append.assoc append_Cons append_Nil length_take min_absorb2 n n_def less_imp_le)
qed

lemma takeWhile_strcpy [simp]:
  "no_nul s \<Longrightarrow> takeWhile (\<lambda>c. c \<noteq> NUL) (c_strcpy b s) = s"
  by (simp add: c_strcpy_def takeWhile_no_nul)

lemma fold_strcat_strcpy:
  "no_nul t \<Longrightarrow> \<forall>s \<in> set ss. no_nul s \<Longrightarrow>
   fold (\<lambda>s b. c_strcat b s) ss (c_strcpy b0 t) = c_strcpy b0 (t @ concat ss)"
  by (induction ss arbitrary: t) simp_all

lemma no_nul_mset: "mset s = mset t \<Longrightarrow> no_nul s \<longleftrightarrow> no_nul t"
  by (simp add: no_nul_def flip: set_mset_mset)

section \<open>Lists of rows\<close>

lemma mset_nth_le_concat: "i < length xs \<Longrightarrow> mset (xs ! i) \<subseteq># mset (concat xs)"
proof -
  assume i: "i < length xs"
  have "mset (concat xs) = mset (xs ! i) + (mset (concat (take i xs)) + mset (concat (drop (Suc i) xs)))"
    by (subst id_take_nth_drop [OF i]) (simp add: ac_simps)
  then show ?thesis by simp
qed

lemma mset_concat_update:
  "i < length xs \<Longrightarrow>
   mset (concat (xs[i := y])) = mset (concat xs) - mset (xs ! i) + mset y"
proof -
  assume i: "i < length xs"
  have "mset (concat xs) = mset (concat (take i xs)) + mset (xs ! i) + mset (concat (drop (Suc i) xs))"
    by (subst id_take_nth_drop [OF i]) simp
  moreover have "mset (concat (xs[i := y])) = mset (concat (take i xs)) + mset y + mset (concat (drop (Suc i) xs))"
    by (simp add: upd_conv_take_nth_drop [OF i])
  ultimately show ?thesis by simp
qed

lemma length_concat_update:
  "i < length xs \<Longrightarrow>
   length (concat (xs[i := y])) = length (concat xs) - length (xs ! i) + length y"
  by (metis mset_concat_update mset_nth_le_concat size_Diff_submset size_mset size_union)


lemma map_nth_upt_take: "n \<le> length xs \<Longrightarrow> map (\<lambda>i. xs ! i) [0..<n] = take n xs"
  by (rule nth_equalityI) simp_all

lemma map_nth_upt_shift:
  "n + k \<le> length xs \<Longrightarrow> map (\<lambda>i. xs ! (i + k)) [0..<n] = take n (drop k xs)"
  by (rule nth_equalityI) (simp_all add: add.commute)

lemma take_length_append: "take (length xs) (xs @ ys) = xs"
  by simp


lemma butlast_replicate_Suc: "butlast (replicate (Suc m) y) = replicate m y"
  by (induction m) auto

lemma concat_replicate_single: "concat (replicate n [c]) = replicate n c"
  by (induction n) simp_all

end
