(* ===== verification/Loops.thy ===== *)
theory Loops
  imports Prelude
begin

text \<open>
  \<open>for (i = c; i < n; i++) body\<close> over a state of any type, stopping at the
  first fault. \<open>for_loop_fill\<close> is the loop that writes \<open>f i\<close> at
  \<open>i + off\<close> of an array (its body may read the part of the array before
  \<open>c + off\<close>, which the loop never writes); \<open>for_loop_collect\<close> is the loop
  that copies a prefix of an array into a fresh one.
\<close>

function for_loop :: "nat \<Rightarrow> nat \<Rightarrow> (nat \<Rightarrow> 's \<Rightarrow> fault + 's) \<Rightarrow> 's \<Rightarrow> fault + 's" where
  "for_loop i n body s = (if i < n then fbind (body i s) (for_loop (Suc i) n body) else Inr s)"
  by pat_completeness auto
termination
  by (relation "measure (\<lambda>(i, n, _, _). n - i)") auto

declare for_loop.simps [simp del]

lemma for_loop_stop [simp]: "\<not> i < n \<Longrightarrow> for_loop i n body s = Inr s"
  by (simp add: for_loop.simps)

lemma for_loop_step:
  "i < n \<Longrightarrow> for_loop i n body s = fbind (body i s) (for_loop (Suc i) n body)"
  by (simp add: for_loop.simps)

lemma for_loop_fill:
  assumes "c \<le> n" "n + off \<le> length xs"
    and body: "\<And>i ys. c \<le> i \<Longrightarrow> i < n \<Longrightarrow> length ys = length xs \<Longrightarrow>
                 take (c + off) ys = take (c + off) xs \<Longrightarrow> body i ys = Inr (ys[i + off := f i])"
  shows "for_loop c n body xs = Inr (take (c + off) xs @ map f [c..<n] @ drop (n + off) xs)"
  using assms
proof (induction c n body xs rule: for_loop.induct)
  case (1 c n body xs)
  show ?case
  proof (cases "c < n")
    case False
    with "1.prems"(1) have "c = n" by simp
    then show ?thesis by simp
  next
    case True
    let ?ys = "xs[c + off := f c]"
    have b: "body c xs = Inr ?ys" using "1.prems"(3) [of c xs] True by simp
    have len: "length ?ys = length xs" by simp
    have ih: "for_loop (Suc c) n body ?ys =
        Inr (take (Suc c + off) ?ys @ map f [Suc c..<n] @ drop (n + off) ?ys)"
    proof (rule "1.IH" [OF True b])
      show "Suc c \<le> n" using True by simp
      show "n + off \<le> length ?ys" using "1.prems"(2) by simp
    next
      fix i zs
      assume i: "Suc c \<le> i" "i < n" and lz: "length zs = length ?ys"
        and tz: "take (Suc c + off) zs = take (Suc c + off) ?ys"
      have "take (c + off) zs = take (c + off) xs"
      proof -
        have "take (c + off) zs = take (c + off) (take (Suc c + off) zs)" by simp
        also have "\<dots> = take (c + off) (take (Suc c + off) ?ys)" using tz by simp
        also have "\<dots> = take (c + off) xs" by simp
        finally show ?thesis .
      qed
      then show "body i zs = Inr (zs[i + off := f i])"
        using "1.prems"(3) [of i zs] i lz by simp
    qed
    have t: "take (Suc c + off) ?ys = take (c + off) xs @ [f c]"
      using True "1.prems"(2) by (simp add: take_Suc_conv_app_nth take_update_cancel)
    have d: "drop (n + off) ?ys = drop (n + off) xs" using True by simp
    have u: "[c..<n] = c # [Suc c..<n]" using True by (simp add: upt_conv_Cons)
    show ?thesis
      using for_loop_step [OF True, of body xs] b ih t d u by simp
  qed
qed


lemma for_loop_collect:
  assumes "n \<le> length src"
  shows "for_loop c n (\<lambda>i acc. fbind (arr_read src (int i)) (\<lambda>v. Inr (acc @ [v]))) acc =
    Inr (acc @ map (\<lambda>i. src ! i) [c..<n])"
proof (induction "n - c" arbitrary: c acc)
  case 0
  then show ?case by simp
next
  case (Suc k)
  then have c: "c < n" by simp
  have "for_loop c n (\<lambda>i acc. fbind (arr_read src (int i)) (\<lambda>v. Inr (acc @ [v]))) acc =
      for_loop (Suc c) n (\<lambda>i acc. fbind (arr_read src (int i)) (\<lambda>v. Inr (acc @ [v])))
        (acc @ [src ! c])"
    using c assms by (simp add: for_loop_step)
  also have "\<dots> = Inr (acc @ [src ! c] @ map (\<lambda>i. src ! i) [Suc c..<n])"
    using Suc.hyps(1) [of "Suc c"] Suc.hyps(2) by simp
  finally show ?case using c by (simp add: upt_conv_Cons)
qed

end
