(* ===== verification/Euclid_Object.thy ===== *)
theory Euclid_Object
  imports Loops
begin

text \<open>
  The object structure \<open>t_euclid\<close> of \<^verbatim>\<open>euclid.c\<close> (lines 39--50) and its
  constructor \<open>euclid_new\<close> (lines 99--119). The host's object header
  \<open>s_ob\<close> and the outlet pointer \<open>s_outlet1\<close> are not modelled: the outlet is
  the list of events a handler returns. Arrays are lists of their declared
  length; the two-dimensional \<open>s_Sequence[64][64]\<close> is a list of 64 rows.
\<close>

record t_euclid =
  s_beats :: c_long
  s_hits :: c_long
  s_thisOffset :: c_long
  s_outputSequence :: c_buf
  s_outputIntSequence :: "c_long list"
  s_Sequence :: "c_str list"
  s_lastElement :: c_int
  s_pingPongFlag :: c_long

text \<open>
  \<open>object_alloc\<close> returns cleared memory: every row empty, every integer 0,
  every byte NUL. \<open>euclid_new\<close> then sets the scalar fields and copies
  \<open>"0"\<close> into the output buffer; the \<open>pingpong\<close> attribute starts at 0.
\<close>

definition euclid_new :: "c_long \<Rightarrow> t_euclid" where
  "euclid_new n =
     \<lparr>s_beats = 0, s_hits = 0, s_thisOffset = 0,
      s_outputSequence = c_strcpy (replicate 64 NUL) ''0'',
      s_outputIntSequence = replicate 128 0,
      s_Sequence = replicate 64 [],
      s_lastElement = 0,
      s_pingPongFlag = 0\<rparr>"

text \<open>The shape of the arrays: every handler keeps their declared lengths.\<close>

definition arrays_ok :: "t_euclid \<Rightarrow> bool" where
  "arrays_ok x \<longleftrightarrow>
     length (s_Sequence x) = 64 \<and> length (s_outputIntSequence x) = 128 \<and>
     (\<forall>r \<in> set (s_Sequence x). no_nul r)"

lemma arrays_ok_new: "arrays_ok (euclid_new n)"
  by (simp add: arrays_ok_def euclid_new_def)

end
