(* ===== verification/Bucket_Init.thy ===== *)
theory Bucket_Init
  imports Euclid_Object
begin

text \<open>
  The bucket initializer \<open>euclid_prepare_sequence\<close> (\<^verbatim>\<open>euclid.c\<close> lines
  218--230): it empties the output buffer and, for every beat, clears the
  integer output and writes the row \<open>"1"\<close> (a filled bucket) for the first
  \<open>s_hits\<close> beats and \<open>"0"\<close> (an empty bucket) for the rest. The \<open>for\<close> loop
  is \<open>prepare_loop\<close>, recursive in the counter, with the measure
  \<open>s_beats - counter\<close>.
\<close>

function prepare_loop :: "nat \<Rightarrow> t_euclid \<Rightarrow> fault + t_euclid" where
  "prepare_loop counter x =
     (if int counter < s_beats x then
        fbind (arr_write (s_outputIntSequence x) (int counter) 0) (\<lambda>oi.
        fbind (arr_write (s_Sequence x) (int counter)
                 (if int counter < s_hits x then ''1'' else ''0'')) (\<lambda>sq.
        prepare_loop (Suc counter) (x\<lparr>s_outputIntSequence := oi, s_Sequence := sq\<rparr>)))
      else Inr x)"
  by pat_completeness auto
termination
  by (relation "measure (\<lambda>(counter, x). nat (s_beats x - int counter))") auto

declare prepare_loop.simps [simp del]

definition euclid_prepare_sequence :: "t_euclid \<Rightarrow> fault + t_euclid" where
  "euclid_prepare_sequence x =
     prepare_loop 0 (x\<lparr>s_outputSequence := c_strcpy (s_outputSequence x) []\<rparr>)"

text \<open>
  The buckets the initializer promises: \<open>min hits beats\<close> filled buckets
  followed by \<open>beats - hits\<close> empty ones (spec section 4.1).
\<close>

definition initial_buckets :: "c_long \<Rightarrow> c_long \<Rightarrow> c_str list" where
  "initial_buckets hits beats =
     replicate (min (nat hits) (nat beats)) ''1'' @ replicate (nat beats - nat hits) ''0''"

text \<open>The row the initializer writes for beat \<open>i\<close>.\<close>

definition init_row :: "c_long \<Rightarrow> nat \<Rightarrow> c_str" where
  "init_row h i = (if int i < h then ''1'' else ''0'')"

lemma take_update_Suc:
  "c < length xs \<Longrightarrow> take (Suc c) (xs[c := v]) = take c xs @ [v]"
  by (simp add: take_Suc_conv_app_nth)

lemma prepare_loop_result:
  assumes "int c \<le> s_beats x"
    and "s_beats x \<le> int (length (s_Sequence x))"
    and "s_beats x \<le> int (length (s_outputIntSequence x))"
  shows "prepare_loop c x =
    Inr (x\<lparr>s_outputIntSequence :=
              take c (s_outputIntSequence x) @ replicate (nat (s_beats x) - c) 0
              @ drop (nat (s_beats x)) (s_outputIntSequence x),
           s_Sequence :=
              take c (s_Sequence x) @ map (init_row (s_hits x)) [c..<nat (s_beats x)]
              @ drop (nat (s_beats x)) (s_Sequence x)\<rparr>)"
  using assms
proof (induction c x rule: prepare_loop.induct)
  case (1 c x)
  show ?case
  proof (cases "int c < s_beats x")
    case False
    with "1.prems" have "nat (s_beats x) = c" by simp
    with False show ?thesis by (simp add: prepare_loop.simps [of c x])
  next
    case True
    let ?oi = "(s_outputIntSequence x)[c := 0]"
    let ?sq = "(s_Sequence x)[c := init_row (s_hits x) c]"
    let ?x = "x\<lparr>s_outputIntSequence := ?oi, s_Sequence := ?sq\<rparr>"
    have c1: "c < length (s_Sequence x)" "c < length (s_outputIntSequence x)"
      using True "1.prems" by simp_all
    have step: "prepare_loop c x = prepare_loop (Suc c) ?x"
      using True c1 by (simp add: prepare_loop.simps [of c x] init_row_def)
    have ih: "prepare_loop (Suc c) ?x =
      Inr (?x\<lparr>s_outputIntSequence :=
              take (Suc c) ?oi @ replicate (nat (s_beats x) - Suc c) 0 @ drop (nat (s_beats x)) ?oi,
            s_Sequence :=
              take (Suc c) ?sq @ map (init_row (s_hits x)) [Suc c..<nat (s_beats x)]
              @ drop (nat (s_beats x)) ?sq\<rparr>)"
      using "1.IH" [OF True] True "1.prems" c1 by (simp add: init_row_def)
    have b: "c < nat (s_beats x)" using True by simp
    have r: "replicate (nat (s_beats x) - c) (0::int) = 0 # replicate (nat (s_beats x) - Suc c) 0"
      using b by (metis Suc_diff_Suc replicate_Suc)
    have m: "[c..<nat (s_beats x)] = c # [Suc c..<nat (s_beats x)]"
      using b by (simp add: upt_conv_Cons)
    show ?thesis
      using step ih c1 b by (simp add: take_update_Suc r m)
  qed
qed


section \<open>The initializer's contract\<close>

lemma init_rows:
  "map (init_row h) [0..<b] = replicate (min (nat h) b) ''1'' @ replicate (b - nat h) ''0''"
proof (induction b)
  case 0
  then show ?case by simp
next
  case (Suc b)
  show ?case
  proof (cases "int b < h")
    case True
    then have "min (nat h) (Suc b) = Suc (min (nat h) b)" "Suc b - nat h = 0" "b - nat h = 0"
      by simp_all
    with Suc.IH True show ?thesis
      by (simp add: init_row_def replicate_append_same [symmetric])
  next
    case False
    then have "min (nat h) (Suc b) = min (nat h) b" "Suc b - nat h = Suc (b - nat h)"
      by simp_all
    with Suc.IH False show ?thesis
      by (simp add: init_row_def replicate_append_same [symmetric])
  qed
qed

lemma initial_buckets_length: "0 \<le> beats \<Longrightarrow> length (initial_buckets hits beats) = nat beats"
  by (simp add: initial_buckets_def)

lemma initial_buckets_no_nul: "\<forall>s \<in> set (initial_buckets hits beats). no_nul s"
  by (auto simp: initial_buckets_def)

text \<open>C13: The bucket initializer empties the output string, clears the first
  \<open>beats\<close> integers and writes \<open>min hits beats\<close> filled buckets then \<open>beats - hits\<close>
  empty ones into the first \<open>beats\<close> rows, leaving the other rows.\<close>

theorem euclid_prepare_sequence_buckets:
  assumes "0 \<le> s_beats x" "s_beats x \<le> int (length (s_Sequence x))"
    and "s_beats x \<le> int (length (s_outputIntSequence x))"
  shows "euclid_prepare_sequence x =
    Inr (x\<lparr>s_outputSequence := c_strcpy (s_outputSequence x) [],
           s_outputIntSequence := replicate (nat (s_beats x)) 0 @ drop (nat (s_beats x)) (s_outputIntSequence x),
           s_Sequence := initial_buckets (s_hits x) (s_beats x) @ drop (nat (s_beats x)) (s_Sequence x)\<rparr>)"
  using prepare_loop_result [of 0 "x\<lparr>s_outputSequence := c_strcpy (s_outputSequence x) []\<rparr>"] assms
  by (simp add: euclid_prepare_sequence_def init_rows initial_buckets_def)

end
