(* ===== verification/Distributor.thy ===== *)
theory Distributor
  imports Bucket_Init
begin

text \<open>
  The Euclidean distributor \<open>euclid(x, hits, beats)\<close> (\<^verbatim>\<open>euclid.c\<close> lines
  234--303) on the object's arrays. The active buckets are the rows
  \<open>s_Sequence[0..s_lastElement]\<close>. One call counts the rows equal to the last
  active row (\<open>remainder\<close>) and the others (\<open>denominator\<close>), chooses
  \<open>zeroSets\<close>, appends \<open>zeroSets\<close> rows taken from the tail to each of the first
  \<open>numberOfDistributions\<close> rows, and recurses with \<open>(beats % hits, hits)\<close>;
  when \<open>hits = 0\<close> it concatenates the active rows onto the output buffer.
  Each loop of the source is one recursive function below; every array index
  is checked, so an out-of-range index would be the fault
  \<open>Index_out_of_bounds\<close> rather than undefined behaviour.
\<close>

section \<open>Counting the bucket kinds (lines 241--251)\<close>

function count_loop :: "c_str list \<Rightarrow> c_int \<Rightarrow> nat \<Rightarrow> nat \<times> nat \<Rightarrow> fault + nat \<times> nat" where
  "count_loop sq lastE counter (remainder, denominator) =
     (if int counter \<le> lastE then
        fbind (arr_read sq (int counter)) (\<lambda>a.
        fbind (arr_read sq lastE) (\<lambda>b.
        count_loop sq lastE (Suc counter)
          (if a = b then (Suc remainder, denominator) else (remainder, Suc denominator))))
      else Inr (remainder, denominator))"
  by pat_completeness auto
termination
  by (relation "measure (\<lambda>(sq, lastE, counter, _). nat (lastE + 1 - int counter))") auto

declare count_loop.simps [simp del]

section \<open>The number of tail buckets folded per leading bucket (lines 253--276)\<close>

definition zero_sets :: "c_int \<Rightarrow> c_int \<Rightarrow> nat \<Rightarrow> nat \<Rightarrow> c_int \<Rightarrow> nat" where
  "zero_sets hits beats remainder denominator lastE =
     (if beats > hits * 2 then
        (if hits \<noteq> 0 then
           (let zs1 = (if denominator = 0 then 1 else remainder div denominator);
                zs2 = (if int zs1 > lastE then 0 else zs1)
            in if zs2 = 0 \<and> remainder > 1 then 1 else zs2)
         else 0)
      else 1)"

section \<open>Folding tail buckets into the leading ones (lines 292--299)\<close>

text \<open>
  The inner loop: \<open>zeroSets\<close> times, append the last active row to row
  \<open>counter\<close> and pop it. Its counter does not occur in the body, so the loop is
  a recursion on the number of iterations left.
\<close>

primrec take_tail :: "nat \<Rightarrow> nat \<Rightarrow> c_str list \<times> c_int \<Rightarrow> fault + c_str list \<times> c_int" where
  "take_tail counter 0 st = Inr st"
| "take_tail counter (Suc k) st =
     (case st of (sq, lastE) \<Rightarrow>
        fbind (arr_read sq lastE) (\<lambda>t.
        fbind (arr_read sq (int counter)) (\<lambda>s.
        fbind (arr_write sq (int counter) (s @ t)) (\<lambda>sq'.
        take_tail counter k (sq', lastE - 1)))))"

text \<open>The outer loop over the first \<open>numberOfDistributions\<close> rows.\<close>

primrec distribute :: "nat \<Rightarrow> nat \<Rightarrow> nat \<Rightarrow> c_str list \<times> c_int \<Rightarrow> fault + c_str list \<times> c_int" where
  "distribute counter 0 zs st = Inr st"
| "distribute counter (Suc n) zs st =
     fbind (take_tail counter zs st) (distribute (Suc counter) n zs)"

section \<open>Concatenating the final buckets (lines 286--290)\<close>

function concat_loop :: "c_str list \<Rightarrow> c_int \<Rightarrow> nat \<Rightarrow> c_buf \<Rightarrow> fault + c_buf" where
  "concat_loop sq lastE counter out =
     (if int counter \<le> lastE then
        fbind (arr_read sq (int counter)) (\<lambda>s. concat_loop sq lastE (Suc counter) (c_strcat out s))
      else Inr out)"
  by pat_completeness auto
termination
  by (relation "measure (\<lambda>(sq, lastE, counter, _). nat (lastE + 1 - int counter))") auto

declare concat_loop.simps [simp del]

section \<open>The recursive distributor\<close>

text \<open>
  The recursion follows Euclid's algorithm on the arguments: the call
  \<open>euclid(x, beats % hits, hits)\<close> has a first argument of smaller absolute
  value, C's truncating \<open>%\<close> being \<open>smod\<close>. This is the termination
  argument; it does not depend on the buckets.
\<close>

function euclid :: "c_int \<Rightarrow> c_int \<Rightarrow> t_euclid \<Rightarrow> fault + t_euclid" where
  "euclid hits beats x =
     fbind (count_loop (s_Sequence x) (s_lastElement x) 0 (0, 0)) (\<lambda>(remainder, denominator).
       let zeroSets = zero_sets hits beats remainder denominator (s_lastElement x);
           numberOfDistributions = (if remainder > denominator then denominator else remainder)
       in if hits = 0 then
            fbind (concat_loop (s_Sequence x) (s_lastElement x) 0 (s_outputSequence x)) (\<lambda>out.
              Inr (x\<lparr>s_outputSequence := out\<rparr>))
          else
            fbind (distribute 0 numberOfDistributions zeroSets (s_Sequence x, s_lastElement x))
              (\<lambda>(sq, lastE).
                 euclid (beats smod hits) hits (x\<lparr>s_Sequence := sq, s_lastElement := lastE\<rparr>)))"
  by pat_completeness auto
termination
proof (relation "measure (\<lambda>(hits, beats, x). nat \<bar>hits\<bar>)")
  show "wf (measure (\<lambda>(hits, beats, x). nat \<bar>hits\<bar>))" by simp
next
  fix hits beats :: int
  assume "hits \<noteq> 0"
  then have "beats smod hits \<in> {- \<bar>hits\<bar> + 1..\<bar>hits\<bar> - 1}"
    by (rule smod_int_range)
  then show "\<And>x r rd y z xa ya. ((beats smod hits, hits, xa), hits, beats, x)
      \<in> measure (\<lambda>(hits, beats, x). nat \<bar>hits\<bar>)"
    by auto
qed

declare euclid.simps [simp del]


text \<open>
  The chain of recursive calls: \<open>euclid(x, hits, beats)\<close> calls itself on
  \<open>(beats % hits, hits)\<close> until \<open>hits\<close> is 0 (lines 286 and 301), whatever the
  buckets hold. \<open>euclid_rounds\<close> counts the calls after the first, that is the
  depth of the C call stack the distributor uses.
\<close>

function euclid_rounds :: "c_int \<Rightarrow> c_int \<Rightarrow> nat" where
  "euclid_rounds hits beats = (if hits = 0 then 0 else Suc (euclid_rounds (beats smod hits) hits))"
  by pat_completeness auto
termination
proof (relation "measure (\<lambda>(hits, beats). nat \<bar>hits\<bar>)")
  show "wf (measure (\<lambda>(hits, beats). nat \<bar>hits\<bar>))" by simp
next
  fix hits beats :: int
  assume "hits \<noteq> 0"
  then have "beats smod hits \<in> {- \<bar>hits\<bar> + 1..\<bar>hits\<bar> - 1}"
    by (rule smod_int_range)
  then show "((beats smod hits, hits), hits, beats) \<in> measure (\<lambda>(hits, beats). nat \<bar>hits\<bar>)"
    by auto
qed

declare euclid_rounds.simps [simp del]

lemma euclid_rounds_step:
  "0 < h \<Longrightarrow> 0 \<le> b \<Longrightarrow> euclid_rounds h b = Suc (euclid_rounds (b mod h) h)"
  by (simp add: euclid_rounds.simps [of h b] smod_mod_positive)

lemma mod_mod_half: "0 < r \<Longrightarrow> r < (h::int) \<Longrightarrow> 2 * (h mod r) < h"
proof (cases "2 * r \<le> h")
  case True
  moreover assume "0 < r"
  then have "h mod r < r" by simp
  ultimately show ?thesis by linarith
next
  case False
  assume r: "0 < r" "r < h"
  have "h mod r = (r + (h - r)) mod r" by simp
  also have "\<dots> = (h - r) mod r" by (rule mod_add_self1)
  also have "\<dots> = h - r" using r False by (intro mod_pos_pos_trivial) simp_all
  finally show ?thesis using False by simp
qed

text \<open>C20: Recursion depth: the distributor's chain of recursive calls is logarithmic in
  the hits, \<open>2 ^ depth \<le> 2 * (hits + 1)^2\<close>; at the clamped bound of 64 hits this is at
  most 13 nested calls (spec section 5).\<close>

theorem euclid_rounds_log:
  assumes "0 \<le> hits" "0 \<le> beats"
  shows "2 ^ euclid_rounds hits beats \<le> 2 * (hits + 1) ^ 2"
  using assms
proof (induction "nat hits" arbitrary: hits beats rule: less_induct)
  case less
  show ?case
  proof (cases "hits = 0")
    case True
    then show ?thesis by (simp add: euclid_rounds.simps)
  next
    case False
    then have h: "0 < hits" using less.prems by simp
    define r1 where "r1 = beats mod hits"
    have r1: "0 \<le> r1" "r1 < hits" using h by (simp_all add: r1_def)
    have s1: "euclid_rounds hits beats = Suc (euclid_rounds r1 hits)"
      using h less.prems by (simp add: euclid_rounds_step r1_def)
    show ?thesis
    proof (cases "r1 = 0")
      case True
      then have "euclid_rounds hits beats = 1" using s1 by (simp add: euclid_rounds.simps)
      moreover have "1 \<le> (hits + 1) ^ 2" using h by (simp add: one_le_power)
      ultimately show ?thesis by simp
    next
      case False
      define r2 where "r2 = hits mod r1"
      have r2: "0 \<le> r2" "2 * r2 < hits" using False r1 mod_mod_half [of r1 hits]
        by (simp_all add: r2_def)
      have s2: "euclid_rounds hits beats = Suc (Suc (euclid_rounds r2 r1))"
        using s1 False r1 less.prems by (simp add: euclid_rounds_step r2_def)
      have ih: "2 ^ euclid_rounds r2 r1 \<le> 2 * (r2 + 1) ^ 2"
        using less.hyps [of r2 r1] r2 r1 h by simp
      have "2 * (r2 + 1) \<le> hits + 1" using r2(2) by presburger
      then have p: "(2 * (r2 + 1)) ^ 2 \<le> (hits + 1) ^ 2"
        using r2 by (intro power_mono) simp_all
      have q: "(2 * (r2 + 1)) ^ 2 = 4 * (r2 + 1) ^ 2"
        by (subst power_mult_distrib) simp
      have "4 * (r2 + 1) ^ 2 \<le> (hits + 1) ^ 2" using p unfolding q .
      then show ?thesis using s2 ih by simp
    qed
  qed
qed

end
