(* ===== verification/Sequence_Output.thy ===== *)
theory Sequence_Output
  imports Euclid_Object
begin

text \<open>
  \<open>euclid_sequence_string_to_int\<close> (\<^verbatim>\<open>euclid.c\<close> lines 307--316): for every
  beat, the byte of the output buffer at that index becomes the integer 1 if it
  is the character \<open>'1'\<close> and 0 otherwise. The buffer is read by index, not as
  a string: a byte after the terminator is read as well, which matters when the
  string is shorter than \<open>s_beats\<close>.
\<close>

text \<open>The integer a byte of the buffer becomes: the test on lines 310--314.\<close>

definition beat_value :: "char \<Rightarrow> c_long" where
  "beat_value ch = (if ch = CHR ''1'' then 1 else 0)"

definition euclid_sequence_string_to_int :: "t_euclid \<Rightarrow> fault + t_euclid" where
  "euclid_sequence_string_to_int x =
     fbind (for_loop 0 (nat (s_beats x))
              (\<lambda>counter oi. arr_write oi (int counter)
                 (beat_value (c_byte (s_outputSequence x) counter)))
              (s_outputIntSequence x))
       (\<lambda>oi. Inr (x\<lparr>s_outputIntSequence := oi\<rparr>))"

lemma string_to_int_result:
  assumes "s_beats x \<le> int (length (s_outputIntSequence x))"
  shows "euclid_sequence_string_to_int x =
    Inr (x\<lparr>s_outputIntSequence :=
           map (\<lambda>i. beat_value (c_byte (s_outputSequence x) i)) [0..<nat (s_beats x)]
           @ drop (nat (s_beats x)) (s_outputIntSequence x)\<rparr>)"
proof -
  have "for_loop 0 (nat (s_beats x))
          (\<lambda>counter oi. arr_write oi (int counter)
             (beat_value (c_byte (s_outputSequence x) counter)))
          (s_outputIntSequence x)
      = Inr (take (0 + 0) (s_outputIntSequence x)
             @ map (\<lambda>i. beat_value (c_byte (s_outputSequence x) i)) [0..<nat (s_beats x)]
             @ drop (nat (s_beats x) + 0) (s_outputIntSequence x))"
    using assms by (intro for_loop_fill) auto
  then show ?thesis by (simp add: euclid_sequence_string_to_int_def)
qed

end
