(* ===== verification/Rotator.thy ===== *)
theory Rotator
  imports Euclid_Object
begin

text \<open>
  The rotator \<open>euclid_thisOffset\<close> (\<^verbatim>\<open>euclid.c\<close> lines 320--355). The
  working offset is \<open>thisOffset % s_beats\<close> when the offset exceeds the beat
  count and the offset itself otherwise; \<open>%\<close> by zero traps, which is the
  fault \<open>Division_by_zero\<close>. The first \<open>s_beats - working\<close> integers are copied
  to \<open>working\<close> places later in a local array, the last \<open>working\<close> ones to its
  front, and the local array is copied back: a right rotation by \<open>working\<close>.
  The local array \<open>thisOffsetIntSequence[64]\<close> is uninitialised in C; its
  first \<open>s_beats\<close> entries are cleared first and no other entry is read, so
  the model starts it as zeros.
\<close>

definition working_offset :: "c_long \<Rightarrow> c_int \<Rightarrow> fault + c_int" where
  "working_offset beats thisOffset =
     (if thisOffset > beats then
        (if beats = 0 then Inl Division_by_zero else Inr (c_int_of_long (thisOffset smod beats)))
      else Inr thisOffset)"

definition euclid_thisOffset :: "t_euclid \<Rightarrow> c_int \<Rightarrow> fault + t_euclid" where
  "euclid_thisOffset x thisOffset =
     fbind (working_offset (s_beats x) thisOffset) (\<lambda>workingthisOffset.
     let remainderthisOffset = c_int_of_long (s_beats x - workingthisOffset);
         src = s_outputIntSequence x
     in fbind (for_loop 0 (nat (s_beats x)) (\<lambda>c t. arr_write t (int c) 0) (replicate 64 0))
        (\<lambda>t. fbind (for_loop 0 (nat remainderthisOffset)
                 (\<lambda>c t. fbind (arr_read src (int c))
                          (\<lambda>v. arr_write t (int c + workingthisOffset) v)) t)
        (\<lambda>t. fbind (for_loop 0 (nat workingthisOffset)
                 (\<lambda>c t. fbind (arr_read src (int c + remainderthisOffset))
                          (\<lambda>v. arr_write t (int c) v)) t)
        (\<lambda>t. fbind (for_loop 0 (nat (s_beats x))
                 (\<lambda>c oi. fbind (arr_read t (int c)) (\<lambda>v. arr_write oi (int c) v)) src)
        (\<lambda>oi. Inr (x\<lparr>s_outputIntSequence := oi\<rparr>))))))"

text \<open>
  The rotator's contract (spec section 4.3): the last \<open>k\<close> entries, then the
  first \<open>length xs - k\<close> ones.
\<close>

definition rotate_right :: "nat \<Rightarrow> 'a list \<Rightarrow> 'a list" where
  "rotate_right k xs = drop (length xs - k) xs @ take (length xs - k) xs"

section \<open>The rotation the copy loops perform\<close>

lemma length_rotate_right [simp]: "length (rotate_right k xs) = length xs"
  by (simp add: rotate_right_def)

lemma set_rotate_right [simp]: "set (rotate_right k xs) = set xs"
  by (metis append_take_drop_id rotate_right_def set_append sup_commute)

lemma working_offset_ok:
  assumes "0 < beats" "beats \<le> 64" "0 \<le> off"
  shows "working_offset beats off = Inr (if off > beats then off mod beats else off)"
proof -
  have "0 \<le> off mod beats" "off mod beats < beats" using assms(1) by simp_all
  then have "fits_int (off mod beats)" using assms(2) by simp
  then show ?thesis using assms by (simp add: working_offset_def smod_mod_positive)
qed

theorem euclid_thisOffset_rotates:
  assumes beats: "0 < s_beats x" "s_beats x \<le> 64" and off: "0 \<le> off"
    and len: "s_beats x \<le> int (length (s_outputIntSequence x))"
  shows "euclid_thisOffset x off =
    Inr (x\<lparr>s_outputIntSequence :=
      rotate_right (nat (if off > s_beats x then off mod s_beats x else off))
        (take (nat (s_beats x)) (s_outputIntSequence x))
      @ drop (nat (s_beats x)) (s_outputIntSequence x)\<rparr>)"
proof -
  define b where "b = nat (s_beats x)"
  define W where "W = (if off > s_beats x then off mod s_beats x else off)"
  define w where "w = nat W"
  define r where "r = b - w"
  define src where "src = s_outputIntSequence x"
  have bW: "0 \<le> W" "W \<le> s_beats x" using beats off by (auto simp: W_def intro: order.strict_implies_order)
  have Wi: "W = int w" using bW by (simp add: w_def)
  have wb: "w \<le> b" using bW by (simp add: w_def b_def)
  have cw: "c_int_of_long (s_beats x - W) = s_beats x - W" using bW beats by simp
  have ri: "s_beats x - W = int r" using wb beats by (simp add: r_def b_def Wi)
  have bl: "b \<le> 64" "b \<le> length src" using beats len by (simp_all add: b_def src_def)
  have rw: "r + w = b" using wb by (simp add: r_def)
  have t0: "for_loop 0 b (\<lambda>c t. arr_write t (int c) 0) (replicate 64 (0::int)) = Inr (replicate 64 0)"
  proof -
    have "for_loop 0 b (\<lambda>c t. arr_write t (int c) 0) (replicate 64 (0::int))
        = Inr (take (0 + 0) (replicate 64 0) @ map (\<lambda>_. 0) [0..<b] @ drop (b + 0) (replicate 64 (0::int)))"
      using bl by (intro for_loop_fill) auto
    moreover have "replicate b (0::int) @ replicate (64 - b) 0 = replicate 64 0"
      using bl by (simp add: replicate_add [symmetric])
    ultimately show ?thesis by (simp add: map_replicate_const)
  qed
  define t1 where "t1 = replicate w 0 @ take r src @ replicate (64 - b) (0::int)"
  have t1: "for_loop 0 (nat (s_beats x - W))
      (\<lambda>c t. fbind (arr_read src (int c)) (\<lambda>v. arr_write t (int c + W) v)) (replicate 64 0) = Inr t1"
  proof -
    have "for_loop 0 r (\<lambda>c t. fbind (arr_read src (int c)) (\<lambda>v. arr_write t (int c + W) v))
          (replicate 64 0)
        = Inr (take (0 + w) (replicate 64 0) @ map (\<lambda>i. src ! i) [0..<r] @ drop (r + w) (replicate 64 (0::int)))"
    proof (rule for_loop_fill)
      fix i and ys :: "int list"
      assume "0 \<le> i" "i < r" "length ys = length (replicate 64 (0::int))"
      then have "i < length src" "i + w < length ys" using rw bl by simp_all
      then show "fbind (arr_read src (int i)) (\<lambda>v. arr_write ys (int i + W) v) = Inr (ys[i + w := src ! i])"
        by (simp add: Wi flip: of_nat_add)
    qed (use rw bl in simp_all)
    then show ?thesis using rw bl by (simp add: ri t1_def map_nth_upt_take)
  qed
  define t2 where "t2 = take w (drop r src) @ take r src @ replicate (64 - b) (0::int)"
  have t2: "for_loop 0 (nat W)
      (\<lambda>c t. fbind (arr_read src (int c + (s_beats x - W))) (\<lambda>v. arr_write t (int c) v)) t1 = Inr t2"
  proof -
    have lt1: "length t1 = 64" using rw bl by (simp add: t1_def)
    have "for_loop 0 w (\<lambda>c t. fbind (arr_read src (int c + (s_beats x - W))) (\<lambda>v. arr_write t (int c) v)) t1
        = Inr (take (0 + 0) t1 @ map (\<lambda>i. src ! (i + r)) [0..<w] @ drop (w + 0) t1)"
    proof (rule for_loop_fill)
      fix i and ys :: "int list"
      assume "0 \<le> i" "i < w" "length ys = length t1"
      then have "i + r < length src" "i < length ys" using rw bl lt1 by simp_all
      then show "fbind (arr_read src (int i + (s_beats x - W))) (\<lambda>v. arr_write ys (int i) v)
          = Inr (ys[i + 0 := src ! (i + r)])"
        by (simp add: ri flip: of_nat_add)
    qed (use rw bl lt1 in simp_all)
    moreover have "drop w t1 = take r src @ replicate (64 - b) 0" by (simp add: t1_def)
    ultimately show ?thesis using rw bl by (simp add: t2_def map_nth_upt_shift w_def)
  qed
  have t3: "for_loop 0 b (\<lambda>c oi. fbind (arr_read t2 (int c)) (\<lambda>v. arr_write oi (int c) v)) src
      = Inr (take b t2 @ drop b src)"
  proof -
    have lt2: "length t2 = 64" using rw bl by (simp add: t2_def)
    have "for_loop 0 b (\<lambda>c oi. fbind (arr_read t2 (int c)) (\<lambda>v. arr_write oi (int c) v)) src
        = Inr (take (0 + 0) src @ map (\<lambda>i. t2 ! i) [0..<b] @ drop (b + 0) src)"
      by (rule for_loop_fill) (use bl lt2 in simp_all)
    then show ?thesis using bl lt2 by (simp add: map_nth_upt_take)
  qed
  have rot: "take b t2 = rotate_right w (take b src)"
  proof -
    have br: "b - w = r" using rw by simp
    have L: "length (take w (drop r src) @ take r src) = b" using rw bl by simp
    have tl: "take (length (take w (drop r src) @ take r src))
        ((take w (drop r src) @ take r src) @ replicate (64 - b) (0::int))
        = take w (drop r src) @ take r src" by (rule take_length_append)
    have "take b t2 = take w (drop r src) @ take r src"
      using tl unfolding L by (simp add: t2_def)
    moreover have "drop r (take b src) = take w (drop r src)"
    proof -
      have "b - r = w" using rw by simp
      then show ?thesis by (simp add: drop_take)
    qed
    moreover have "rotate_right w (take b src) = drop r (take b src) @ take r (take b src)"
      using bl br rw by (simp add: rotate_right_def min_def)
    moreover have "take r (take b src) = take r src" using rw by simp
    ultimately show ?thesis by simp
  qed
  show ?thesis
    unfolding euclid_thisOffset_def
    using working_offset_ok [OF beats off] t0 t1 t2 t3 rot cw
    by (simp add: W_def [symmetric] b_def [symmetric] src_def [symmetric] w_def [symmetric] Let_def)
qed


lemma rotate_right_rotate:
  "k \<le> length xs \<Longrightarrow> rotate_right k xs = rotate (length xs - k) xs"
proof (cases "k = 0")
  case True
  then show ?thesis by (simp add: rotate_right_def)
next
  case False
  assume k: "k \<le> length xs"
  with False have "(length xs - k) mod length xs = length xs - k" by simp
  then show ?thesis by (simp add: rotate_right_def rotate_drop_take)
qed

lemma rotate_right_roundtrip:
  assumes "k \<le> length xs"
  shows "rotate_right (length xs - k) (rotate_right k xs) = xs"
proof -
  have "rotate_right (length xs - k) (rotate_right k xs) = rotate k (rotate (length xs - k) xs)"
    using assms by (simp add: rotate_right_rotate)
  also have "\<dots> = rotate (length xs) xs" using assms by (simp add: rotate_rotate)
  finally show ?thesis by simp
qed

text \<open>C10: The rotator's copy loops compute HOL's list rotation: the first \<open>beats\<close>
  integers become \<open>rotate (beats - w)\<close> of themselves, \<open>w\<close> the working offset
  (\<open>off mod beats\<close> when the offset exceeds the beats), and the rest is unchanged.\<close>

theorem euclid_thisOffset_rotate:
  assumes "0 < s_beats x" "s_beats x \<le> 64" "0 \<le> off"
    and "s_beats x \<le> int (length (s_outputIntSequence x))"
  shows "euclid_thisOffset x off =
    Inr (x\<lparr>s_outputIntSequence :=
      rotate (nat (s_beats x) - nat (if off > s_beats x then off mod s_beats x else off))
        (take (nat (s_beats x)) (s_outputIntSequence x))
      @ drop (nat (s_beats x)) (s_outputIntSequence x)\<rparr>)"
proof -
  let ?b = "nat (s_beats x)" and ?w = "nat (if off > s_beats x then off mod s_beats x else off)"
  have "?w \<le> ?b" using assms by (auto simp: less_imp_le)
  moreover have "length (take ?b (s_outputIntSequence x)) = ?b" using assms by simp
  ultimately have "rotate_right ?w (take ?b (s_outputIntSequence x))
      = rotate (?b - ?w) (take ?b (s_outputIntSequence x))"
    by (metis rotate_right_rotate)
  then show ?thesis using euclid_thisOffset_rotates [OF assms] by simp
qed

end
