(* ===== verification/Mirror.thy ===== *)
theory Mirror
  imports Euclid_Object
begin

text \<open>
  The mirror extender \<open>euclid_ping_pong\<close> (\<^verbatim>\<open>euclid.c\<close> lines 359--368): the
  loop runs \<open>fwdCounter\<close> from \<open>s_beats\<close> up to \<open>2 * s_beats\<close> and
  \<open>revCounter\<close> down from \<open>s_beats\<close>, copying entry \<open>revCounter - 1\<close> to entry
  \<open>fwdCounter\<close>. The loop body is \<open>ping_pong_step\<close>; the loop state is the array with
  \<open>revCounter\<close>.
\<close>

definition ping_pong_step :: "nat \<Rightarrow> c_long list \<times> c_int \<Rightarrow> fault + c_long list \<times> c_int" where
  "ping_pong_step fwdCounter st =
     (case st of (oi, revCounter) \<Rightarrow>
        fbind (arr_read oi (revCounter - 1)) (\<lambda>v.
        fbind (arr_write oi (int fwdCounter) v) (\<lambda>oi'. Inr (oi', revCounter - 1))))"

definition euclid_ping_pong :: "t_euclid \<Rightarrow> fault + t_euclid" where
  "euclid_ping_pong x =
     fbind (for_loop (nat (s_beats x)) (nat (s_beats x * 2)) ping_pong_step
              (s_outputIntSequence x, s_beats x))
       (\<lambda>(oi, revCounter). Inr (x\<lparr>s_outputIntSequence := oi\<rparr>))"


section \<open>The loop writes the reversed prefix after the prefix\<close>

lemma ping_pong_step_ok:
  assumes "1 \<le> r" "r \<le> int (length oi)" "f < length oi"
  shows "ping_pong_step f (oi, r) = Inr (oi[f := oi ! nat (r - 1)], r - 1)"
  using assms by (simp add: ping_pong_step_def arr_read_def arr_write_def)

lemma ping_pong_loop:
  assumes "k \<le> b" "2 * b \<le> length src"
  shows "for_loop (b + k) (nat (int b * 2)) ping_pong_step
      (take b src @ take k (rev (take b src)) @ drop (b + k) src, int b - int k)
    = Inr (take b src @ rev (take b src) @ drop (2 * b) src, 0)"
  using assms
proof (induction "b - k" arbitrary: k)
  case 0
  then have "k = b" by simp
  then show ?case by (simp add: mult_2)
next
  case (Suc m)
  let ?p = "take b src"
  let ?oi = "?p @ take k (rev ?p) @ drop (b + k) src"
  have k: "k < b" using Suc.hyps(2) by simp
  have lp: "length ?p = b" using Suc.prems by simp
  have lo: "length ?oi = length src" using Suc.prems k by simp
  have rd: "?oi ! (b - Suc k) = rev ?p ! k"
    using k lp by (simp add: nth_append rev_nth)
  have upd: "?oi[b + k := rev ?p ! k] = ?p @ take (Suc k) (rev ?p) @ drop (b + Suc k) src"
  proof -
    have "drop (b + k) src = src ! (b + k) # drop (b + Suc k) src"
      using Suc.prems k by (simp add: Cons_nth_drop_Suc)
    moreover have "take (Suc k) (rev ?p) = take k (rev ?p) @ [rev ?p ! k]"
      using k lp by (simp add: take_Suc_conv_app_nth)
    ultimately show ?thesis using k lp by (simp add: list_update_append)
  qed
  have r: "nat (int b - int k - 1) = b - Suc k" "int b - int k - 1 = int b - int (Suc k)"
    using k by simp_all
  have body: "ping_pong_step (b + k) (?oi, int b - int k)
      = Inr (?p @ take (Suc k) (rev ?p) @ drop (b + Suc k) src, int b - int (Suc k))"
    using ping_pong_step_ok [where r = "int b - int k" and f = "b + k" and oi = ?oi] k lo Suc.prems rd upd r
    by simp
  have "for_loop (b + k) (nat (int b * 2)) ping_pong_step (?oi, int b - int k)
      = for_loop (Suc (b + k)) (nat (int b * 2)) ping_pong_step
          (?p @ take (Suc k) (rev ?p) @ drop (b + Suc k) src, int b - int (Suc k))"
    using k body by (simp add: for_loop_step)
  also have "\<dots> = Inr (?p @ rev ?p @ drop (2 * b) src, 0)"
    using Suc.hyps(1) [of "Suc k"] Suc.hyps(2) Suc.prems k by simp
  finally show ?case .
qed

theorem euclid_ping_pong_mirrors:
  assumes "0 \<le> s_beats x" "2 * s_beats x \<le> int (length (s_outputIntSequence x))"
  shows "euclid_ping_pong x =
    Inr (x\<lparr>s_outputIntSequence :=
           take (nat (s_beats x)) (s_outputIntSequence x)
           @ rev (take (nat (s_beats x)) (s_outputIntSequence x))
           @ drop (2 * nat (s_beats x)) (s_outputIntSequence x)\<rparr>)"
proof -
  define b where "b = nat (s_beats x)"
  have bi: "s_beats x = int b" using assms by (simp add: b_def)
  have l: "2 * b \<le> length (s_outputIntSequence x)" using assms bi by simp
  have "take b (s_outputIntSequence x) @ take 0 (rev (take b (s_outputIntSequence x)))
      @ drop (b + 0) (s_outputIntSequence x) = s_outputIntSequence x" by simp
  then show ?thesis
    using ping_pong_loop [of 0 b "s_outputIntSequence x"] l
    by (simp add: euclid_ping_pong_def bi b_def [symmetric])
qed

text \<open>C11: Mirror structure: after \<open>euclid_ping_pong\<close>, entry \<open>beats + i\<close> holds the
  old entry \<open>beats - 1 - i\<close> and entry \<open>i\<close> is unchanged, for every \<open>i < beats\<close>.\<close>

theorem euclid_ping_pong_index:
  assumes "0 \<le> s_beats x" "2 * s_beats x \<le> int (length (s_outputIntSequence x))"
    and "i < nat (s_beats x)"
  shows "\<exists>y. euclid_ping_pong x = Inr y \<and>
    s_outputIntSequence y ! (nat (s_beats x) + i) = s_outputIntSequence x ! (nat (s_beats x) - 1 - i) \<and>
    s_outputIntSequence y ! i = s_outputIntSequence x ! i"
proof -
  let ?b = "nat (s_beats x)" and ?oi = "s_outputIntSequence x"
  have l: "?b \<le> length ?oi" using assms by simp
  have "(take ?b ?oi @ rev (take ?b ?oi) @ drop (2 * ?b) ?oi) ! (?b + i) = rev (take ?b ?oi) ! i"
    using l assms(3) by (simp add: nth_append)
  also have "\<dots> = ?oi ! (?b - 1 - i)" using l assms(3) by (simp add: rev_nth)
  finally show ?thesis
    using euclid_ping_pong_mirrors [OF assms(1,2)] l assms(3) by (simp add: nth_append)
qed

end
