(* ===== verification/Inlets.thy ===== *)
theory Inlets
  imports Distributor Sequence_Output Rotator Mirror
begin

text \<open>
  The object's handlers: \<open>euclid_bang\<close> (\<^verbatim>\<open>euclid.c\<close> lines 145--167), the
  pipeline prepare, distribute, convert, rotate, mirror (when the
  \<open>pingpong\<close> attribute is 1) and output; the inlet handlers
  \<open>euclid_int\<close> (hits, lines 171--184), \<open>euclid_in1\<close> (beats, lines 188--200)
  and \<open>euclid_in2\<close> (offset, lines 204--214), which clamp their argument, set
  \<open>s_lastElement\<close> and call \<open>euclid_bang\<close>; and the message table of
  \<open>main\<close> (lines 78--89) as a step function on messages. The outlet is the
  list of \<open>sequence\<close> messages a step emits, each the list of its arguments.
\<close>

section \<open>The bang handler\<close>

text \<open>The \<open>argv\<close> loops: the first \<open>n\<close> integers become the message's atoms.\<close>

definition emit_atoms :: "c_long list \<Rightarrow> c_long \<Rightarrow> fault + c_long list" where
  "emit_atoms oi n =
     for_loop 0 (nat n)
       (\<lambda>counter argv. fbind (arr_read oi (int counter)) (\<lambda>v. Inr (argv @ [v]))) []"

definition euclid_bang :: "t_euclid \<Rightarrow> fault + t_euclid \<times> c_long list" where
  "euclid_bang x =
     fbind (euclid_prepare_sequence x) (\<lambda>x.
     fbind (euclid (c_int_of_long (s_hits x)) (c_int_of_long (s_beats x)) x) (\<lambda>x.
     fbind (euclid_sequence_string_to_int x) (\<lambda>x.
     fbind (euclid_thisOffset x (c_int_of_long (s_thisOffset x))) (\<lambda>x.
     if s_pingPongFlag x = 1 then
       fbind (euclid_ping_pong x) (\<lambda>x.
       fbind (emit_atoms (s_outputIntSequence x) (s_beats x * 2)) (\<lambda>argv. Inr (x, argv)))
     else
       fbind (emit_atoms (s_outputIntSequence x) (s_beats x)) (\<lambda>argv. Inr (x, argv))))))"

section \<open>The inlets\<close>

definition euclid_int :: "t_euclid \<Rightarrow> c_long \<Rightarrow> fault + t_euclid \<times> c_long list" where
  "euclid_int x hits =
     (let x = (if hits \<le> s_beats x
               then x\<lparr>s_hits := hits, s_lastElement := c_int_of_long (s_beats x - 1)\<rparr>
               else x\<lparr>s_hits := s_beats x, s_lastElement := c_int_of_long (s_beats x - 1)\<rparr>);
          x = (if hits < 0 then x\<lparr>s_hits := 0, s_lastElement := c_int_of_long (s_beats x - 1)\<rparr> else x)
      in euclid_bang x)"

definition euclid_in1 :: "t_euclid \<Rightarrow> c_long \<Rightarrow> fault + t_euclid \<times> c_long list" where
  "euclid_in1 x beats =
     (let beats = (if beats > 64 then 64 else beats);
          x = (if beats > 0 then x\<lparr>s_beats := beats, s_lastElement := c_int_of_long (beats - 1)\<rparr>
               else x\<lparr>s_beats := 1, s_lastElement := 0\<rparr>)
      in euclid_bang x)"

definition euclid_in2 :: "t_euclid \<Rightarrow> c_long \<Rightarrow> fault + t_euclid \<times> c_long list" where
  "euclid_in2 x thisOffset =
     (let thisOffset = (if thisOffset < 0 then 0 else thisOffset);
          thisOffset = (if thisOffset > 128 then 128 else thisOffset)
      in euclid_bang (x\<lparr>s_lastElement := c_int_of_long (s_beats x - 1), s_thisOffset := thisOffset\<rparr>))"

section \<open>Messages\<close>

text \<open>
  The methods \<open>main\<close> registers: \<open>bang\<close>, \<open>int\<close> on the left inlet, \<open>in1\<close>
  and \<open>in2\<close> on the other two, and the \<open>pingpong\<close> attribute, whose default
  setter stores the value without output.
\<close>

datatype message =
    Msg_bang
  | Msg_int c_long
  | Msg_in1 c_long
  | Msg_in2 c_long
  | Msg_pingpong c_long

fun euclid_message :: "t_euclid \<Rightarrow> message \<Rightarrow> fault + t_euclid \<times> c_long list list" where
  "euclid_message x Msg_bang = fbind (euclid_bang x) (\<lambda>(x, out). Inr (x, [out]))"
| "euclid_message x (Msg_int v) = fbind (euclid_int x v) (\<lambda>(x, out). Inr (x, [out]))"
| "euclid_message x (Msg_in1 v) = fbind (euclid_in1 x v) (\<lambda>(x, out). Inr (x, [out]))"
| "euclid_message x (Msg_in2 v) = fbind (euclid_in2 x v) (\<lambda>(x, out). Inr (x, [out]))"
| "euclid_message x (Msg_pingpong v) = Inr (x\<lparr>s_pingPongFlag := v\<rparr>, [])"

text \<open>A run of messages from an object: the events in order, or the first fault.\<close>

fun euclid_run :: "t_euclid \<Rightarrow> message list \<Rightarrow> fault + t_euclid \<times> c_long list list" where
  "euclid_run x [] = Inr (x, [])"
| "euclid_run x (m # ms) =
     fbind (euclid_message x m) (\<lambda>(x, out).
     fbind (euclid_run x ms) (\<lambda>(x, out'). Inr (x, out @ out')))"

text \<open>The states an object can reach from its creation through handled messages.\<close>

inductive reachable :: "t_euclid \<Rightarrow> bool" where
  created: "reachable (euclid_new n)"
| handled: "reachable x \<Longrightarrow> euclid_message x m = Inr (x', out) \<Longrightarrow> reachable x'"

end
