(* ===== verification/Euclid_List.thy ===== *)
theory Euclid_List
  imports Distributor "HOL-Library.Sublist"
begin

text \<open>
  The abstract distributor: the same rounds as \<open>euclid\<close>, on the list of
  active buckets itself instead of an array and a last index (the redesign of
  spec section 9). A round counts the buckets equal to the last one, folds
  \<open>zeroSets\<close> buckets from the tail into each of the first
  \<open>min remainder denominator\<close> buckets, and recurses on
  \<open>(beats % hits, hits)\<close>; the result is the list of final buckets, whose
  concatenation is the pattern. This theory proves what a round preserves:
  the multiset of symbols (conservation) and the first bucket's prefix.
\<close>

definition kind_counts :: "c_str list \<Rightarrow> nat \<times> nat" where
  "kind_counts bs =
     (length (filter (\<lambda>b. b = last bs) bs), length (filter (\<lambda>b. b \<noteq> last bs) bs))"

primrec take_tail_list :: "nat \<Rightarrow> nat \<Rightarrow> c_str list \<Rightarrow> c_str list" where
  "take_tail_list c 0 bs = bs"
| "take_tail_list c (Suc k) bs = take_tail_list c k (butlast (bs[c := bs ! c @ last bs]))"

primrec distribute_list :: "nat \<Rightarrow> nat \<Rightarrow> nat \<Rightarrow> c_str list \<Rightarrow> c_str list" where
  "distribute_list c 0 zs bs = bs"
| "distribute_list c (Suc n) zs bs = distribute_list (Suc c) n zs (take_tail_list c zs bs)"

function euclid_list :: "c_int \<Rightarrow> c_int \<Rightarrow> c_str list \<Rightarrow> c_str list" where
  "euclid_list hits beats bs =
     (case kind_counts bs of (remainder, denominator) \<Rightarrow>
        if hits = 0 then bs
        else euclid_list (beats smod hits) hits
               (distribute_list 0 (min remainder denominator)
                  (zero_sets hits beats remainder denominator (int (length bs) - 1)) bs))"
  by pat_completeness auto
termination
proof (relation "measure (\<lambda>(hits, beats, bs). nat \<bar>hits\<bar>)")
  show "wf (measure (\<lambda>(hits, beats, bs). nat \<bar>hits\<bar>))" by simp
next
  fix hits beats :: int
  assume "hits \<noteq> 0"
  then have "beats smod hits \<in> {- \<bar>hits\<bar> + 1..\<bar>hits\<bar> - 1}"
    by (rule smod_int_range)
  then show "\<And>bs r d. ((beats smod hits, hits, distribute_list 0 (min r d)
      (zero_sets hits beats r d (int (length bs) - 1)) bs), hits, beats, bs)
      \<in> measure (\<lambda>(hits, beats, bs). nat \<bar>hits\<bar>)"
    by auto
qed

declare euclid_list.simps [simp del]

section \<open>The fold bound\<close>

text \<open>
  Whatever branch of the \<open>zeroSets\<close> rule is taken, the buckets folded
  away and the buckets they are folded into together never exceed the active
  buckets. This is why no bucket is ever folded into itself or into a bucket
  already popped, for all arguments, not only those of the recursion.
\<close>

lemma fold_bound_small: "min r d * Suc z \<le> r + d" if "z \<le> 1" for z r d :: nat
proof -
  have "min r d * Suc z \<le> min r d * 2" using that by (intro mult_le_mono2) simp
  then show ?thesis by linarith
qed
lemma fold_bound_quot: "min r d * Suc (r div d) \<le> r + d" if "0 < d" for r d :: nat
proof (cases "r \<le> d")
  case True
  have "r div d \<le> d div d" using True by (rule div_le_mono)
  with that have "r div d \<le> 1" by simp
  then show ?thesis by (rule fold_bound_small)
next
  case False
  then have "min r d * Suc (r div d) = d + d * (r div d)" by simp
  also have "\<dots> \<le> d + r" using div_times_less_eq_dividend [of r d] by (simp add: mult.commute)
  finally show ?thesis by simp
qed
lemma zero_sets_cases:
  "zero_sets hits beats r d l \<le> 1 \<or> (0 < d \<and> zero_sets hits beats r d l = r div d)"
  unfolding zero_sets_def Let_def by (simp split: if_split)
lemma zero_sets_fold_bound:
  "min r d * Suc (zero_sets hits beats r d l) \<le> r + d"
proof (cases "zero_sets hits beats r d l \<le> 1")
  case True
  then show ?thesis by (rule fold_bound_small)
next
  case False
  with zero_sets_cases [of hits beats r d l]
  have "0 < d" and "zero_sets hits beats r d l = r div d" by simp_all
  then show ?thesis using fold_bound_quot [of d r] by simp
qed

lemma kind_counts_sum: "kind_counts bs = (r, d) \<Longrightarrow> r + d = length bs"
  by (auto simp: kind_counts_def sum_length_filter_compl)

section \<open>One fold: conservation and the first bucket\<close>

lemma fold_one_mset:
  assumes "Suc c < length bs"
  shows "mset (concat (butlast (bs[c := bs ! c @ last bs]))) = mset (concat bs)"
proof -
  obtain ys z where bs: "bs = ys @ [z]"
    using assms by (metis append_butlast_last_id list.size(3) not_less_zero)
  have c: "c < length ys" using assms bs by simp
  have "butlast (bs[c := bs ! c @ last bs]) = ys[c := ys ! c @ z]"
    using c by (simp add: bs list_update_append nth_append)
  moreover have "mset (concat (ys[c := ys ! c @ z])) = mset (concat ys) + mset z"
    using c by (simp add: mset_concat_update mset_nth_le_concat subset_mset.diff_add)
  ultimately show ?thesis by (simp add: bs)
qed

lemma fold_one_length:
  "Suc c < length bs \<Longrightarrow> length (butlast (bs[c := bs ! c @ last bs])) = length bs - 1"
  by simp

lemma take_tail_list_length:
  "c + k < length bs \<Longrightarrow> length (take_tail_list c k bs) = length bs - k"
  by (induction k arbitrary: bs) auto

lemma take_tail_list_mset:
  "c + k < length bs \<Longrightarrow> mset (concat (take_tail_list c k bs)) = mset (concat bs)"
proof (induction k arbitrary: bs)
  case 0
  then show ?case by simp
next
  case (Suc k)
  then have "c + k < length (butlast (bs[c := bs ! c @ last bs]))" by simp
  with Suc.IH have "mset (concat (take_tail_list c k (butlast (bs[c := bs ! c @ last bs]))))
      = mset (concat (butlast (bs[c := bs ! c @ last bs])))" by blast
  with fold_one_mset [of c bs] Suc.prems show ?case by simp
qed

lemma distribute_list_length:
  "c + n * Suc zs \<le> length bs \<Longrightarrow> length (distribute_list c n zs bs) = length bs - n * zs"
proof (induction n arbitrary: c bs)
  case 0
  then show ?case by simp
next
  case (Suc n)
  have tt: "length (take_tail_list c zs bs) = length bs - zs"
    using Suc.prems by (intro take_tail_list_length) simp
  have "Suc c + n * Suc zs \<le> length (take_tail_list c zs bs)"
    using Suc.prems tt by simp
  with Suc.IH tt show ?case by simp
qed

lemma distribute_list_mset:
  "c + n * Suc zs \<le> length bs \<Longrightarrow>
   mset (concat (distribute_list c n zs bs)) = mset (concat bs)"
proof (induction n arbitrary: c bs)
  case 0
  then show ?case by simp
next
  case (Suc n)
  have tt: "length (take_tail_list c zs bs) = length bs - zs"
    using Suc.prems by (intro take_tail_list_length) simp
  have "Suc c + n * Suc zs \<le> length (take_tail_list c zs bs)"
    using Suc.prems tt by simp
  with Suc.IH have "mset (concat (distribute_list (Suc c) n zs (take_tail_list c zs bs)))
      = mset (concat (take_tail_list c zs bs))" by blast
  also have "\<dots> = mset (concat bs)"
    using Suc.prems by (intro take_tail_list_mset) simp
  finally show ?case by simp
qed

text \<open>A round is safe: its folds fit into the active buckets.\<close>

lemma round_fits:
  assumes "kind_counts bs = (r, d)"
  shows "0 + min r d * Suc (zero_sets hits beats r d l) \<le> length bs"
  using zero_sets_fold_bound [of r d hits beats l] kind_counts_sum [OF assms] by simp


section \<open>Rounds: conservation and the first bucket\<close>

lemma euclid_list_round:
  assumes "kind_counts bs = (r, d)" "hits \<noteq> 0"
  shows "euclid_list hits beats bs = euclid_list (beats smod hits) hits
           (distribute_list 0 (min r d) (zero_sets hits beats r d (int (length bs) - 1)) bs)"
  using assms by (simp add: euclid_list.simps [of hits beats bs])

lemma euclid_list_stop: "euclid_list 0 beats bs = bs"
  by (simp add: euclid_list.simps [of 0 beats bs] split: prod.split)

theorem euclid_list_conserves:
  "mset (concat (euclid_list hits beats bs)) = mset (concat bs)"
proof (induction hits beats bs rule: euclid_list.induct)
  case (1 hits beats bs)
  obtain r d where rd: "kind_counts bs = (r, d)" by fastforce
  show ?case
  proof (cases "hits = 0")
    case True
    then show ?thesis by (simp add: euclid_list_stop)
  next
    case False
    let ?zs = "zero_sets hits beats r d (int (length bs) - 1)"
    let ?bs' = "distribute_list 0 (min r d) ?zs bs"
    have "mset (concat (euclid_list (beats smod hits) hits ?bs')) = mset (concat ?bs')"
      using "1.IH" [OF rd [symmetric] False] .
    also have "\<dots> = mset (concat bs)"
      using round_fits [OF rd] by (intro distribute_list_mset) simp
    finally show ?thesis using euclid_list_round [OF rd False] by simp
  qed
qed
lemma fold_one_first:
  "Suc c < length bs \<Longrightarrow> prefix (bs ! 0) (butlast (bs[c := bs ! c @ last bs]) ! 0)"
proof -
  assume c: "Suc c < length bs"
  then have "butlast (bs[c := bs ! c @ last bs]) ! 0 = bs[c := bs ! c @ last bs] ! 0"
    by (simp add: nth_butlast)
  also have "\<dots> = (if c = 0 then bs ! 0 @ last bs else bs ! 0)"
    using c by (simp add: nth_list_update)
  finally show ?thesis by simp
qed

lemma take_tail_list_first:
  "c + k < length bs \<Longrightarrow> prefix (bs ! 0) (take_tail_list c k bs ! 0)"
proof (induction k arbitrary: bs)
  case 0
  then show ?case by simp
next
  case (Suc k)
  let ?bs = "butlast (bs[c := bs ! c @ last bs])"
  have "prefix (bs ! 0) (?bs ! 0)"
    using Suc.prems by (intro fold_one_first) simp
  moreover have "prefix (?bs ! 0) (take_tail_list c k ?bs ! 0)"
    using Suc.prems by (intro Suc.IH) simp
  ultimately show ?case by (auto intro: prefix_order.order_trans)
qed

lemma distribute_list_first:
  "c + n * Suc zs \<le> length bs \<Longrightarrow> 0 < length bs \<Longrightarrow>
   prefix (bs ! 0) (distribute_list c n zs bs ! 0) \<and> 0 < length (distribute_list c n zs bs)"
proof (induction n arbitrary: c bs)
  case 0
  then show ?case by simp
next
  case (Suc n)
  have tt: "length (take_tail_list c zs bs) = length bs - zs"
    using Suc.prems by (intro take_tail_list_length) simp
  have fit: "Suc c + n * Suc zs \<le> length (take_tail_list c zs bs)"
    using Suc.prems tt by simp
  have "prefix (bs ! 0) (take_tail_list c zs bs ! 0)"
    using Suc.prems by (intro take_tail_list_first) simp
  moreover have "0 < length (take_tail_list c zs bs)" using fit by linarith
  ultimately show ?case
    using Suc.IH [OF fit] by (auto intro: prefix_order.order_trans)
qed

theorem euclid_list_first:
  "0 < length bs \<Longrightarrow>
   prefix (bs ! 0) (euclid_list hits beats bs ! 0) \<and> 0 < length (euclid_list hits beats bs)"
proof (induction hits beats bs rule: euclid_list.induct)
  case (1 hits beats bs)
  obtain r d where rd: "kind_counts bs = (r, d)" by fastforce
  show ?case
  proof (cases "hits = 0")
    case True
    with "1.prems" show ?thesis by (simp add: euclid_list_stop)
  next
    case False
    let ?zs = "zero_sets hits beats r d (int (length bs) - 1)"
    let ?bs' = "distribute_list 0 (min r d) ?zs bs"
    have d: "prefix (bs ! 0) (?bs' ! 0) \<and> 0 < length ?bs'"
      using round_fits [OF rd] "1.prems" by (intro distribute_list_first) simp_all
    then have "prefix (?bs' ! 0) (euclid_list (beats smod hits) hits ?bs' ! 0)
        \<and> 0 < length (euclid_list (beats smod hits) hits ?bs')"
      using "1.IH" [OF rd [symmetric] False] by blast
    with d show ?thesis
      using euclid_list_round [OF rd False] by (auto intro: prefix_order.order_trans)
  qed
qed


section \<open>One hit\<close>

text \<open>With a single filled bucket, one round folds every empty bucket into it:
  the result is one bucket holding the whole pattern.\<close>

lemma take_tail_list_gather:
  "k \<le> n \<Longrightarrow> take_tail_list 0 k (x # replicate n y) = (x @ concat (replicate k y)) # replicate (n - k) y"
proof (induction k arbitrary: x n)
  case 0
  then show ?case by simp
next
  case (Suc k)
  then obtain m where n: "n = Suc m" by (cases n) auto
  have "butlast ((x # replicate n y)[0 := (x # replicate n y) ! 0 @ last (x # replicate n y)])
      = (x @ y) # replicate m y"
    using n butlast_replicate_Suc [of m y] by simp
  then show ?case using Suc.IH [of m "x @ y"] Suc.prems n by simp
qed

lemma euclid_list_one_hit:
  assumes "1 \<le> b"
  shows "euclid_list 1 b (initial_buckets 1 b) = [CHR ''1'' # replicate (nat b - 1) CHR ''0'']"
proof -
  define n where "n = nat b - 1"
  have ib: "initial_buckets 1 b = ''1'' # replicate n ''0''"
    using assms by (simp add: initial_buckets_def n_def)
  have s: "b smod 1 = 0" using smod_int_range [of 1 b] by simp
  show ?thesis
  proof (cases n)
    case 0
    have "kind_counts [''1''] = (1, 0)" by (simp add: kind_counts_def)
    then show ?thesis using euclid_list_round [of "[''1'']" 1 0 1 b] ib 0
      by (simp add: s euclid_list_stop n_def)
  next
    case (Suc m)
    have kc: "kind_counts (''1'' # replicate n ''0'') = (n, 1)"
      using Suc by (simp add: kind_counts_def)
    have zs: "zero_sets 1 b n 1 (int (length (''1'' # replicate n ''0'')) - 1) = n"
    proof -
      have "\<not> 2 < b \<Longrightarrow> m = 0" using Suc assms unfolding n_def by arith
      then show ?thesis using Suc assms by (auto simp: zero_sets_def n_def)
    qed
    have "distribute_list 0 (min n 1) n (''1'' # replicate n ''0'') = [''1'' @ concat (replicate n ''0'')]"
      using Suc take_tail_list_gather [of n n "''1''" "''0''"] by (simp add: numeral_2_eq_2)
    then show ?thesis using euclid_list_round [OF kc, of 1 b] ib zs
      by (simp add: s euclid_list_stop n_def concat_replicate_single)
  qed
qed
end
