(* ===== verification/Distributor_Refinement.thy ===== *)
theory Distributor_Refinement
  imports Euclid_List
begin

text \<open>
  Refinement of the abstract distributor \<open>euclid_list\<close> by the array
  implementation \<open>euclid\<close>. The abstraction function \<open>active_buckets\<close> maps
  an object to its active rows \<open>s_Sequence[0..s_lastElement]\<close>. Each loop of
  \<open>euclid\<close> is related to its list counterpart (\<open>count_loop\<close> to
  \<open>kind_counts\<close>, \<open>take_tail\<close> and \<open>distribute\<close> to \<open>take_tail_list\<close> and
  \<open>distribute_list\<close>, \<open>concat_loop\<close> to a fold of \<open>strcat\<close>), and the main
  theorem shows that \<open>euclid\<close> never faults and appends exactly the final
  buckets of \<open>euclid_list\<close> to the output buffer.
\<close>

definition active_buckets :: "t_euclid \<Rightarrow> c_str list" where
  "active_buckets x = take (nat (s_lastElement x + 1)) (s_Sequence x)"

lemma count_loop_result:
  assumes "lastE < int (length sq)" "c \<le> nat (lastE + 1)"
  shows "count_loop sq lastE c (r, d) =
    Inr (r + length (filter (\<lambda>b. b = sq ! nat lastE) (drop c (take (nat (lastE + 1)) sq))),
         d + length (filter (\<lambda>b. b \<noteq> sq ! nat lastE) (drop c (take (nat (lastE + 1)) sq))))"
  using assms
proof (induction sq lastE c "(r, d)" arbitrary: r d rule: count_loop.induct)
  case (1 sq lastE c r d)
  show ?case
  proof (cases "int c \<le> lastE")
    case False
    then have "count_loop sq lastE c (r, d) = Inr (r, d)"
      by (simp add: count_loop.simps [of sq lastE c])
    moreover have "drop c (take (nat (lastE + 1)) sq) = []"
      using False "1.prems" by simp
    ultimately show ?thesis by simp
  next
    case True
    have c: "c < length sq" "c < nat (lastE + 1)" using True "1.prems" by simp_all
    have l: "0 \<le> lastE" using True by simp
    have dr: "drop c (take (nat (lastE + 1)) sq) = sq ! c # drop (Suc c) (take (nat (lastE + 1)) sq)"
    proof -
      have "c < length (take (nat (lastE + 1)) sq)" using c by simp
      then show ?thesis by (metis Cons_nth_drop_Suc nth_take c(2))
    qed
    have step: "count_loop sq lastE c (r, d) = count_loop sq lastE (Suc c)
        (if sq ! c = sq ! nat lastE then (Suc r, d) else (r, Suc d))"
      using True c l "1.prems" by (simp add: count_loop.simps [of sq lastE c] arr_read_int)
    show ?thesis
    proof (cases "sq ! c = sq ! nat lastE")
      case eq: True
      have "count_loop sq lastE (Suc c) (Suc r, d) =
        Inr (Suc r + length (filter (\<lambda>b. b = sq ! nat lastE) (drop (Suc c) (take (nat (lastE + 1)) sq))),
             d + length (filter (\<lambda>b. b \<noteq> sq ! nat lastE) (drop (Suc c) (take (nat (lastE + 1)) sq))))"
        by (rule "1.hyps" [OF True]) (use "1.prems" c l eq in \<open>simp_all add: arr_read_int\<close>)
      then show ?thesis using step eq dr by simp
    next
      case neq: False
      have "count_loop sq lastE (Suc c) (r, Suc d) =
        Inr (r + length (filter (\<lambda>b. b = sq ! nat lastE) (drop (Suc c) (take (nat (lastE + 1)) sq))),
             Suc d + length (filter (\<lambda>b. b \<noteq> sq ! nat lastE) (drop (Suc c) (take (nat (lastE + 1)) sq))))"
        by (rule "1.hyps" [OF True]) (use "1.prems" c l neq in \<open>simp_all add: arr_read_int\<close>)
      then show ?thesis using step neq dr by simp
    qed
  qed
qed


lemma count_loop_kind_counts:
  assumes "-1 \<le> lastE" "lastE < int (length sq)"
  shows "count_loop sq lastE 0 (0, 0) = Inr (kind_counts (take (nat (lastE + 1)) sq))"
proof (cases "lastE = -1")
  case True
  then show ?thesis by (simp add: count_loop.simps kind_counts_def)
next
  case False
  with assms have l: "0 \<le> lastE" by simp
  moreover have "nat lastE < length sq" using assms l by simp
  ultimately have "last (take (nat (lastE + 1)) sq) = sq ! nat lastE"
    by (simp add: nat_add_distrib take_Suc_conv_app_nth)
  with count_loop_result [OF assms(2), of 0 0 0] show ?thesis
    by (simp add: kind_counts_def)
qed

lemma take_fold_one:
  assumes "Suc n \<le> length sq" "c < n"
  shows "take n (sq[c := sq ! c @ sq ! n]) =
    butlast ((take (Suc n) sq)[c := take (Suc n) sq ! c @ last (take (Suc n) sq)])"
proof -
  have t: "take (Suc n) sq = take n sq @ [sq ! n]"
    using assms by (simp add: take_Suc_conv_app_nth)
  show ?thesis
    using assms by (simp add: t list_update_append nth_append take_update_swap)
qed

lemma take_tail_refines:
  assumes "l < int (length sq)" "int (c + k) \<le> l" "\<forall>r \<in> set sq. no_nul r"
  shows "\<exists>sq'. take_tail c k (sq, l) = Inr (sq', l - int k) \<and> length sq' = length sq \<and>
           (\<forall>r \<in> set sq'. no_nul r) \<and>
           take (nat (l + 1 - int k)) sq' = take_tail_list c k (take (nat (l + 1)) sq)"
  using assms
proof (induction k arbitrary: sq l)
  case 0
  then show ?case by simp
next
  case (Suc k)
  define n where "n = nat l"
  have l: "l = int n" "c < n" "Suc n \<le> length sq"
    using Suc.prems by (simp_all add: n_def)
  let ?sq = "sq[c := sq ! c @ sq ! n]"
  have rows: "\<forall>r \<in> set ?sq. no_nul r"
    using Suc.prems(3) l by (auto dest: set_update_subset_insert [THEN subsetD])
  have ih: "\<exists>sq'. take_tail c k (?sq, l - 1) = Inr (sq', l - 1 - int k) \<and>
      length sq' = length ?sq \<and> (\<forall>r \<in> set sq'. no_nul r) \<and>
      take (nat (l - 1 + 1 - int k)) sq' = take_tail_list c k (take (nat (l - 1 + 1)) ?sq)"
    using Suc.prems rows l by (intro Suc.IH) simp_all
  have step: "take_tail c (Suc k) (sq, l) = take_tail c k (?sq, l - 1)"
    using l by (simp add: arr_read_int)
  have abs: "take n ?sq = butlast ((take (Suc n) sq)[c := take (Suc n) sq ! c @ last (take (Suc n) sq)])"
    by (rule take_fold_one [OF l(3) l(2)])
  obtain sq' where sq': "take_tail c k (?sq, l - 1) = Inr (sq', l - 1 - int k)"
      "length sq' = length ?sq" "\<forall>r \<in> set sq'. no_nul r"
      "take (nat (l - 1 + 1 - int k)) sq' = take_tail_list c k (take (nat (l - 1 + 1)) ?sq)"
    using ih by blast
  have "take (nat (l + 1 - int (Suc k))) sq' = take_tail_list c (Suc k) (take (nat (l + 1)) sq)"
    using sq'(4) abs l by (simp add: nat_add_distrib)
  moreover have "take_tail c (Suc k) (sq, l) = Inr (sq', l - int (Suc k))"
    using step sq'(1) by simp
  ultimately show ?case using sq'(2,3) by auto
qed


lemma distribute_refines:
  assumes "l < int (length sq)" "int (c + n * Suc zs) \<le> l + 1" "\<forall>r \<in> set sq. no_nul r"
  shows "\<exists>sq'. distribute c n zs (sq, l) = Inr (sq', l - int (n * zs)) \<and> length sq' = length sq \<and>
           (\<forall>r \<in> set sq'. no_nul r) \<and>
           take (nat (l + 1 - int (n * zs))) sq' = distribute_list c n zs (take (nat (l + 1)) sq)"
  using assms
proof (induction n arbitrary: c sq l)
  case 0
  then show ?case by simp
next
  case (Suc n)
  obtain sq1 where t: "take_tail c zs (sq, l) = Inr (sq1, l - int zs)" "length sq1 = length sq"
      "\<forall>r \<in> set sq1. no_nul r"
      "take (nat (l + 1 - int zs)) sq1 = take_tail_list c zs (take (nat (l + 1)) sq)"
  proof -
    have "0 \<le> int n * int zs" by simp
    then have "int (c + zs) \<le> l" using Suc.prems(2) by (simp del: of_nat_mult)
    then show ?thesis using take_tail_refines [of l sq c zs] Suc.prems that by blast
  qed
  have fit: "int (Suc c + n * Suc zs) \<le> l - int zs + 1" using Suc.prems by simp
  obtain sq2 where d: "distribute (Suc c) n zs (sq1, l - int zs) = Inr (sq2, l - int zs - int (n * zs))"
      "length sq2 = length sq1" "\<forall>r \<in> set sq2. no_nul r"
      "take (nat (l - int zs + 1 - int (n * zs))) sq2
         = distribute_list (Suc c) n zs (take (nat (l - int zs + 1)) sq1)"
    using Suc.IH [OF _ fit t(3)] Suc.prems t(2) by auto
  have e: "l - int zs - int (n * zs) = l - int (Suc n * zs)"
    "l - int zs + 1 - int (n * zs) = l + 1 - int (Suc n * zs)"
    "l - int zs + 1 = l + 1 - int zs" by simp_all
  show ?case
    using t d e by (simp add: diff_diff_eq)
qed

lemma concat_loop_result:
  assumes "lastE < int (length sq)" "c \<le> nat (lastE + 1)"
  shows "concat_loop sq lastE c out =
    Inr (fold (\<lambda>s b. c_strcat b s) (drop c (take (nat (lastE + 1)) sq)) out)"
  using assms
proof (induction sq lastE c out rule: concat_loop.induct)
  case (1 sq lastE c out)
  show ?case
  proof (cases "int c \<le> lastE")
    case False
    then have "concat_loop sq lastE c out = Inr out"
      by (simp add: concat_loop.simps [of sq lastE c])
    moreover have "drop c (take (nat (lastE + 1)) sq) = []"
      using False "1.prems" by simp
    ultimately show ?thesis by simp
  next
    case True
    have c: "c < length sq" "c < nat (lastE + 1)" using True "1.prems" by simp_all
    have dr: "drop c (take (nat (lastE + 1)) sq) = sq ! c # drop (Suc c) (take (nat (lastE + 1)) sq)"
    proof -
      have "c < length (take (nat (lastE + 1)) sq)" using c by simp
      then show ?thesis by (metis Cons_nth_drop_Suc nth_take c(2))
    qed
    have "concat_loop sq lastE c out = concat_loop sq lastE (Suc c) (c_strcat out (sq ! c))"
      using True c by (simp add: concat_loop.simps [of sq lastE c])
    also have "\<dots> = Inr (fold (\<lambda>s b. c_strcat b s) (drop (Suc c) (take (nat (lastE + 1)) sq))
                          (c_strcat out (sq ! c)))"
      by (rule "1.IH" [OF True]) (use "1.prems" c in simp_all)
    finally show ?thesis using dr by simp
  qed
qed


theorem euclid_refines_list:
  assumes "-1 \<le> s_lastElement x" "s_lastElement x < int (length (s_Sequence x))"
    "\<forall>r \<in> set (s_Sequence x). no_nul r"
  shows "\<exists>sq l. euclid hits beats x =
      Inr (x\<lparr>s_outputSequence := fold (\<lambda>s b. c_strcat b s)
                 (euclid_list hits beats (active_buckets x)) (s_outputSequence x),
            s_Sequence := sq, s_lastElement := l\<rparr>) \<and>
      length sq = length (s_Sequence x) \<and> -1 \<le> l \<and> l \<le> s_lastElement x \<and>
      (\<forall>r \<in> set sq. no_nul r) \<and>
      take (nat (l + 1)) sq = euclid_list hits beats (active_buckets x)"
  using assms
proof (induction hits beats x rule: euclid.induct)
  case (1 hits beats x)
  let ?sq = "s_Sequence x" and ?l = "s_lastElement x"
  let ?bs = "active_buckets x"
  obtain r d where rd: "kind_counts ?bs = (r, d)" by fastforce
  have cnt: "count_loop ?sq ?l 0 (0, 0) = Inr (r, d)"
    using count_loop_kind_counts [OF "1.prems"(1,2)] rd by (simp add: active_buckets_def)
  have len: "length ?bs = nat (?l + 1)" using "1.prems" by (simp add: active_buckets_def)
  show ?case
  proof (cases "hits = 0")
    case True
    have "euclid hits beats x =
        Inr (x\<lparr>s_outputSequence := fold (\<lambda>s b. c_strcat b s) ?bs (s_outputSequence x)\<rparr>)"
      using True cnt concat_loop_result [OF "1.prems"(2), of 0]
      by (simp add: euclid.simps [of 0 beats x] active_buckets_def)
    then show ?thesis
      using True "1.prems" by (intro exI [of _ ?sq] exI [of _ ?l])
        (simp add: euclid_list_stop active_buckets_def)
  next
    case False
    let ?zs = "zero_sets hits beats r d ?l"
    let ?n = "min r d"
    have zl: "int (length ?bs) - 1 = ?l" using len "1.prems"(1) by simp
    have f0: "?n * Suc ?zs \<le> nat (?l + 1)"
      using round_fits [OF rd, of hits beats ?l] len by simp
    have "int (?n * Suc ?zs) \<le> int (nat (?l + 1))"
      using f0 by (rule of_nat_mono)
    with "1.prems"(1) have fit: "int (0 + ?n * Suc ?zs) \<le> ?l + 1" by simp
    obtain sq1 where dist: "distribute 0 ?n ?zs (?sq, ?l) = Inr (sq1, ?l - int (?n * ?zs))"
        "length sq1 = length ?sq" "\<forall>r \<in> set sq1. no_nul r"
        "take (nat (?l + 1 - int (?n * ?zs))) sq1 = distribute_list 0 ?n ?zs ?bs"
      using distribute_refines [OF "1.prems"(2) fit "1.prems"(3)] by (auto simp: active_buckets_def)
    let ?l1 = "?l - int (?n * ?zs)"
    let ?x1 = "x\<lparr>s_Sequence := sq1, s_lastElement := ?l1\<rparr>"
    have mn: "(if d < r then d else r) = ?n" by auto
    have dist0: "distribute 0 (if d < r then d else r) ?zs (?sq, ?l) = Inr (sq1, ?l1)"
      using dist(1) mn by simp
    have e: "int (0 + ?n * Suc ?zs) = int (?n * ?zs) + int ?n" by simp
    have nz: "int (?n * ?zs) + int ?n \<le> ?l + 1" using fit e by linarith
    have pz: "0 \<le> int (?n * ?zs)" "0 \<le> int ?n" by simp_all
    have p1: "-1 \<le> ?l1" using nz pz by linarith
    have p3: "?l1 \<le> ?l" using pz(1) by linarith
    have p2: "?l1 < int (length sq1)" using p3 "1.prems"(2) dist(2) by linarith
    note pre1 = p1 p2 p3
    have ih: "\<exists>sq l. euclid (beats smod hits) hits ?x1 =
      Inr (?x1\<lparr>s_outputSequence := fold (\<lambda>s b. c_strcat b s)
                 (euclid_list (beats smod hits) hits (active_buckets ?x1)) (s_outputSequence ?x1),
            s_Sequence := sq, s_lastElement := l\<rparr>) \<and>
      length sq = length (s_Sequence ?x1) \<and> -1 \<le> l \<and> l \<le> s_lastElement ?x1 \<and>
      (\<forall>r \<in> set sq. no_nul r) \<and>
      take (nat (l + 1)) sq = euclid_list (beats smod hits) hits (active_buckets ?x1)"
      by (rule "1.IH" [OF cnt refl refl refl False dist0 refl])
        (use pre1 dist(3) in simp_all)
    have a1: "active_buckets ?x1 = take (nat (?l1 + 1)) sq1"
      by (simp add: active_buckets_def)
    have a2: "nat (?l1 + 1) = nat (?l + 1 - int (?n * ?zs))"
      by (simp only: diff_add_eq)
    have act: "active_buckets ?x1 = distribute_list 0 ?n ?zs ?bs"
      by (simp only: a1 a2 dist(4))
    have step: "euclid hits beats x = euclid (beats smod hits) hits ?x1"
      using cnt dist(1) False mn by (simp add: euclid.simps [of hits beats x])
    have lst: "euclid_list hits beats ?bs =
        euclid_list (beats smod hits) hits (distribute_list 0 ?n ?zs ?bs)"
      using euclid_list_round [OF rd False] zl by simp
    obtain sq l where e: "euclid (beats smod hits) hits ?x1 =
        Inr (?x1\<lparr>s_outputSequence := fold (\<lambda>s b. c_strcat b s)
                 (euclid_list (beats smod hits) hits (active_buckets ?x1)) (s_outputSequence ?x1),
            s_Sequence := sq, s_lastElement := l\<rparr>)"
        and props: "length sq = length (s_Sequence ?x1)" "-1 \<le> l" "l \<le> s_lastElement ?x1"
          "\<forall>r \<in> set sq. no_nul r"
          "take (nat (l + 1)) sq = euclid_list (beats smod hits) hits (active_buckets ?x1)"
      using ih by blast
    have "euclid hits beats x =
        Inr (x\<lparr>s_outputSequence := fold (\<lambda>s b. c_strcat b s)
                 (euclid_list hits beats ?bs) (s_outputSequence x),
            s_Sequence := sq, s_lastElement := l\<rparr>)"
      using step e act lst by simp
    moreover have "length sq = length ?sq" using props(1) dist(2) by simp
    moreover have "l \<le> ?l"
    proof -
      have "l \<le> ?l1" using props(3) by simp
      then show ?thesis using pre1(3) by linarith
    qed
    moreover have "take (nat (l + 1)) sq = euclid_list hits beats ?bs"
      using props(5) act lst by simp
    ultimately show ?thesis using props(2,4) by blast
  qed
qed

text \<open>C9: Conservation in the code: from any \<open>s_lastElement\<close> in \<open>[-1, rows)\<close>, the
  distributor returns without fault and the output string grows by exactly the
  characters of the active buckets (as a multiset).\<close>

theorem euclid_buffer_conserves:
  assumes "-1 \<le> s_lastElement x" "s_lastElement x < int (length (s_Sequence x))"
    "\<forall>r \<in> set (s_Sequence x). no_nul r" "NUL \<in> set (s_outputSequence x)"
  shows "\<exists>x'. euclid hits beats x = Inr x' \<and>
    mset (takeWhile (\<lambda>c. c \<noteq> NUL) (s_outputSequence x'))
      = mset (takeWhile (\<lambda>c. c \<noteq> NUL) (s_outputSequence x)) + mset (concat (active_buckets x))"
proof -
  let ?b = "s_outputSequence x"
  let ?s = "takeWhile (\<lambda>c. c \<noteq> NUL) ?b"
  let ?L = "euclid_list hits beats (active_buckets x)"
  have act: "\<forall>r \<in> set (active_buckets x). no_nul r"
    using assms(3) by (auto simp: active_buckets_def dest: in_set_takeD)
  then have rows: "\<forall>r \<in> set ?L. no_nul r"
    using no_nul_mset [OF euclid_list_conserves] by (metis no_nul_concat)
  have s: "no_nul ?s" by (auto simp: no_nul_def dest: set_takeWhileD)
  have "fold (\<lambda>s b. c_strcat b s) ?L ?b = c_strcpy ?b (?s @ concat ?L)"
    using fold_strcat_strcpy [OF s rows, of ?b] c_strcpy_terminated [OF assms(4)] by simp
  moreover have "no_nul (?s @ concat ?L)" using s rows by simp
  ultimately show ?thesis
    using euclid_refines_list [OF assms(1-3), of hits beats] by (auto simp: euclid_list_conserves)
qed

end
