(* ===== verification/Pipeline.thy ===== *)
theory Pipeline
  imports Inlets Distributor_Refinement
begin

definition euclid_pattern :: "c_long \<Rightarrow> c_long \<Rightarrow> c_long list" where
  "euclid_pattern hits beats =
     map beat_value (concat (euclid_list hits beats (initial_buckets hits beats)))"

definition working :: "c_long \<Rightarrow> c_long \<Rightarrow> nat" where
  "working beats off = nat (if off > beats then off mod beats else off)"

definition generate :: "c_long \<Rightarrow> c_long \<Rightarrow> c_long \<Rightarrow> bool \<Rightarrow> c_long list" where
  "generate hits beats off pingpong =
     (let p = rotate_right (working beats off) (euclid_pattern hits beats)
      in if pingpong then p @ rev p else p)"

definition bang_ready :: "t_euclid \<Rightarrow> bool" where
  "bang_ready x \<longleftrightarrow> arrays_ok x \<and> 1 \<le> s_beats x \<and> s_beats x \<le> 64 \<and> 0 \<le> s_thisOffset x \<and>
     fits_int (s_thisOffset x) \<and> fits_int (s_hits x) \<and> s_lastElement x = s_beats x - 1"

text \<open>
  What a bang computes from any state with in-range parameters: the buckets the
  distributor ends with when it starts from the stored \<open>s_lastElement\<close> (which a
  bang does not reset), and the emitted integers, read byte by byte from the
  output buffer.
\<close>

definition bang_buckets :: "t_euclid \<Rightarrow> c_str list" where
  "bang_buckets x = euclid_list (s_hits x) (s_beats x)
     (take (nat (s_lastElement x + 1))
        (initial_buckets (s_hits x) (s_beats x) @ drop (nat (s_beats x)) (s_Sequence x)))"

definition bang_output :: "t_euclid \<Rightarrow> c_long list" where
  "bang_output x =
     (let buf = c_strcpy (s_outputSequence x) (concat (bang_buckets x));
          p = rotate_right (working (s_beats x) (s_thisOffset x))
                (map (\<lambda>i. beat_value (c_byte buf i)) [0..<nat (s_beats x)])
      in if s_pingPongFlag x = 1 then p @ rev p else p)"

lemma final_buckets_no_nul:
  "\<forall>s \<in> set (euclid_list hits beats (initial_buckets hits beats)). no_nul s"
proof -
  have "no_nul (concat (initial_buckets hits beats))"
    using initial_buckets_no_nul by simp
  then have "no_nul (concat (euclid_list hits beats (initial_buckets hits beats)))"
    using no_nul_mset [OF euclid_list_conserves] by blast
  then show ?thesis by simp
qed

lemma final_buckets_length:
  "0 \<le> beats \<Longrightarrow> length (concat (euclid_list hits beats (initial_buckets hits beats))) = nat beats"
proof -
  assume b: "0 \<le> beats"
  have "length (concat (euclid_list hits beats (initial_buckets hits beats)))
      = length (concat (initial_buckets hits beats))"
    by (metis euclid_list_conserves size_mset)
  also have "\<dots> = nat beats" using b by (simp add: initial_buckets_def length_concat sum_list_replicate)
  finally show ?thesis .
qed

lemma euclid_pattern_length: "0 \<le> beats \<Longrightarrow> length (euclid_pattern hits beats) = nat beats"
  by (simp add: euclid_pattern_def final_buckets_length)


lemma map_beat_value_bytes:
  "map (\<lambda>i. beat_value (c_byte (c_strcpy b0 s) i)) [0..<length s] = map beat_value s"
proof -
  have "map (\<lambda>i. beat_value (c_byte (c_strcpy b0 s) i)) [0..<length s]
      = map beat_value (map (\<lambda>i. s ! i) [0..<length s])"
    by simp
  then show ?thesis by (simp add: map_nth_upt_take)
qed

lemma emit_atoms_take:
  "0 \<le> n \<Longrightarrow> nat n \<le> length oi \<Longrightarrow> emit_atoms oi n = Inr (take (nat n) oi)"
  by (simp add: emit_atoms_def for_loop_collect map_nth_upt_take)

lemma thisOffset_general:
  assumes "0 \<le> s_beats x" "s_beats x \<le> 64" "0 \<le> off" "\<not> (s_beats x = 0 \<and> 0 < off)"
    "s_beats x \<le> int (length (s_outputIntSequence x))"
  shows "euclid_thisOffset x off =
    Inr (x\<lparr>s_outputIntSequence := rotate_right (working (s_beats x) off)
            (take (nat (s_beats x)) (s_outputIntSequence x)) @ drop (nat (s_beats x)) (s_outputIntSequence x)\<rparr>)"
proof (cases "s_beats x = 0")
  case True
  then show ?thesis
    using assms by (simp add: euclid_thisOffset_def working_offset_def rotate_right_def)
next
  case False
  then show ?thesis using euclid_thisOffset_rotates [of x off] assms by (simp add: working_def)
qed

lemma thisOffset_fault:
  "s_beats x = 0 \<Longrightarrow> 0 < off \<Longrightarrow> euclid_thisOffset x off = Inl Division_by_zero"
  by (simp add: euclid_thisOffset_def working_offset_def)

lemma bang_general:
  assumes "arrays_ok x" "0 \<le> s_beats x" "s_beats x \<le> 64" "0 \<le> s_thisOffset x"
    "-1 \<le> s_lastElement x" "s_lastElement x < 64" "fits_int (s_hits x)" "fits_int (s_thisOffset x)"
  shows "if s_beats x = 0 \<and> 0 < s_thisOffset x then euclid_bang x = Inl Division_by_zero
    else \<exists>x'. euclid_bang x = Inr (x', bang_output x) \<and>
      s_hits x' = s_hits x \<and> s_beats x' = s_beats x \<and> s_thisOffset x' = s_thisOffset x \<and>
      s_pingPongFlag x' = s_pingPongFlag x \<and> arrays_ok x' \<and>
      s_outputSequence x' = c_strcpy (s_outputSequence x) (concat (bang_buckets x)) \<and>
      s_lastElement x' = int (length (bang_buckets x)) - 1 \<and> s_lastElement x' \<le> s_lastElement x \<and>
      take (nat (s_lastElement x' + 1)) (s_Sequence x') = bang_buckets x \<and>
      (\<exists>x1 x2. s_Sequence x1 = initial_buckets (s_hits x) (s_beats x) @ drop (nat (s_beats x)) (s_Sequence x) \<and>
         s_lastElement x1 = s_lastElement x \<and> euclid (s_hits x) (s_beats x) x1 = Inr x2 \<and>
         s_Sequence x' = s_Sequence x2)"
proof -
  have lens: "length (s_Sequence x) = 64" "length (s_outputIntSequence x) = 128"
    "\<forall>r \<in> set (s_Sequence x). no_nul r"
    using assms(1) by (simp_all add: arrays_ok_def)
  obtain b where bi: "s_beats x = int b" "b \<le> 64"
    using assms(2,3) by (metis nonneg_int_cases of_nat_le_iff of_nat_numeral)
  have n: "c_int_of_long (s_hits x) = s_hits x" "c_int_of_long (s_beats x) = s_beats x"
    "c_int_of_long (s_thisOffset x) = s_thisOffset x"
    using assms(2,3,7,8) by simp_all
  define L where "L = bang_buckets x"
  define buf where "buf = c_strcpy (s_outputSequence x) (concat L)"
  define raw where "raw = map (\<lambda>i. beat_value (c_byte buf i)) [0..<b]"
  define p where "p = rotate_right (working (s_beats x) (s_thisOffset x)) raw"
  \<comment> \<open>prepare\<close>
  define x1 where "x1 = x\<lparr>s_outputSequence := c_strcpy (s_outputSequence x) [],
           s_outputIntSequence := replicate b 0 @ drop b (s_outputIntSequence x),
           s_Sequence := initial_buckets (s_hits x) (s_beats x) @ drop b (s_Sequence x)\<rparr>"
  have st1: "euclid_prepare_sequence x = Inr x1"
    using prepare_loop_result [of 0 "x\<lparr>s_outputSequence := c_strcpy (s_outputSequence x) []\<rparr>"]
      lens(1,2) bi
    by (simp add: euclid_prepare_sequence_def init_rows x1_def initial_buckets_def)
  have ib: "length (initial_buckets (s_hits x) (s_beats x)) = b"
    using initial_buckets_length [of "s_beats x"] bi by simp
  have pre2: "-1 \<le> s_lastElement x1" "s_lastElement x1 < int (length (s_Sequence x1))"
    "\<forall>r \<in> set (s_Sequence x1). no_nul r"
    using assms(5,6) lens bi ib initial_buckets_no_nul by (auto simp: x1_def dest: in_set_dropD)
  have act: "euclid_list (s_hits x1) (s_beats x1) (active_buckets x1) = L"
    using bi by (simp add: L_def bang_buckets_def active_buckets_def x1_def)
  \<comment> \<open>distribute\<close>
  obtain sq l where st2: "euclid (s_hits x1) (s_beats x1) x1 =
      Inr (x1\<lparr>s_outputSequence := fold (\<lambda>s b. c_strcat b s) L (s_outputSequence x1),
               s_Sequence := sq, s_lastElement := l\<rparr>)"
    and sq: "length sq = length (s_Sequence x1)" "-1 \<le> l" "l \<le> s_lastElement x1"
      "\<forall>r \<in> set sq. no_nul r" "take (nat (l + 1)) sq = L"
    using euclid_refines_list [OF pre2, of "s_hits x1" "s_beats x1"] act by auto
  have fr: "length sq = 64" "l < 64" using sq(1,3) lens(1) assms(6) bi ib by (simp_all add: x1_def)
  have lL: "l = int (length L) - 1" using sq(2,5) fr by (auto simp flip: sq(5))
  have rows: "\<forall>r \<in> set L. no_nul r"
  proof -
    have "\<forall>r \<in> set (active_buckets x1). no_nul r"
      using pre2(3) by (auto simp: active_buckets_def dest: in_set_takeD)
    then have "no_nul (concat L)" using no_nul_mset [OF euclid_list_conserves] act by (metis no_nul_concat)
    then show ?thesis by simp
  qed
  have buf2: "fold (\<lambda>s b. c_strcat b s) L (s_outputSequence x1) = buf"
    using fold_strcat_strcpy [of "[]" L "s_outputSequence x"] rows by (simp add: x1_def buf_def)
  define x2 where "x2 = x1\<lparr>s_outputSequence := buf, s_Sequence := sq, s_lastElement := l\<rparr>"
  have st2': "euclid (s_hits x1) (s_beats x1) x1 = Inr x2"
    using st2 buf2 by (simp add: x2_def)
  \<comment> \<open>convert\<close>
  define x3 where "x3 = x2\<lparr>s_outputIntSequence := raw @ drop b (s_outputIntSequence x)\<rparr>"
  have st3: "euclid_sequence_string_to_int x2 = Inr x3"
    using string_to_int_result [of x2] lens bi by (simp add: x3_def x2_def x1_def raw_def)
  \<comment> \<open>rotate\<close>
  have lraw: "length raw = b" by (simp add: raw_def)
  have l3: "length (s_outputIntSequence x3) = 128" using lens bi lraw by (simp add: x3_def)
  have n3: "c_int_of_long (s_thisOffset x3) = s_thisOffset x3" using n by (simp add: x3_def x2_def x1_def)
  have n1: "c_int_of_long (s_hits x1) = s_hits x1" "c_int_of_long (s_beats x1) = s_beats x1"
    using n by (simp_all add: x1_def)
  show ?thesis
  proof (cases "s_beats x = 0 \<and> 0 < s_thisOffset x")
    case True
    then have "euclid_thisOffset x3 (s_thisOffset x3) = Inl Division_by_zero"
      using thisOffset_fault [of x3] by (simp add: x3_def x2_def x1_def)
    then show ?thesis using st1 st2' st3 True n1 n3 by (simp add: euclid_bang_def)
  next
    case off_ok: False
    define x4 where "x4 = x3\<lparr>s_outputIntSequence := p @ drop b (s_outputIntSequence x)\<rparr>"
    have st4: "euclid_thisOffset x3 (s_thisOffset x3) = Inr x4"
      using thisOffset_general [of x3 "s_thisOffset x3"] assms(4) off_ok bi l3 lraw
      by (simp add: x4_def x3_def x2_def x1_def p_def)
    have lp: "length p = b" using lraw by (simp add: p_def)
    have l4: "length (s_outputIntSequence x4) = 128" using lp lens bi by (simp add: x4_def)
    have inv4: "arrays_ok x4" using l4 sq(4) fr by (simp add: arrays_ok_def x4_def x3_def x2_def)
    have par4: "s_hits x4 = s_hits x" "s_beats x4 = s_beats x" "s_thisOffset x4 = s_thisOffset x"
      "s_pingPongFlag x4 = s_pingPongFlag x" "s_outputSequence x4 = buf" "s_lastElement x4 = l"
      "s_Sequence x4 = sq"
      by (simp_all add: x4_def x3_def x2_def x1_def)
    have out: "bang_output x = (if s_pingPongFlag x = 1 then p @ rev p else p)"
      by (simp add: bang_output_def Let_def p_def raw_def buf_def L_def bi)
    have "\<exists>x'. euclid_bang x = Inr (x', bang_output x) \<and>
      s_hits x' = s_hits x \<and> s_beats x' = s_beats x \<and> s_thisOffset x' = s_thisOffset x \<and>
      s_pingPongFlag x' = s_pingPongFlag x \<and> arrays_ok x' \<and>
      s_outputSequence x' = buf \<and> s_lastElement x' = l \<and> l \<le> s_lastElement x \<and>
      s_Sequence x' = sq"
    proof (cases "s_pingPongFlag x = 1")
      case True
      define x5 where "x5 = x4\<lparr>s_outputIntSequence := p @ rev p @ drop (2 * b) (s_outputIntSequence x4)\<rparr>"
      have st5: "euclid_ping_pong x4 = Inr x5"
        using euclid_ping_pong_mirrors [of x4] l4 bi lp par4(2) by (simp add: x5_def x4_def)
      have l5: "length (s_outputIntSequence x5) = 128" using l4 lp bi by (simp add: x5_def)
      have em: "emit_atoms (s_outputIntSequence x5) (s_beats x5 * 2) = Inr (p @ rev p)"
        using emit_atoms_take [of "s_beats x5 * 2" "s_outputIntSequence x5"] bi lp l4 par4(2)
        by (simp add: x5_def)
      have "arrays_ok x5" using inv4 l5 by (simp add: arrays_ok_def x5_def)
      then show ?thesis using st1 st2' st3 st4 st5 em True par4 sq(3) out
        by (simp add: euclid_bang_def n n3 x1_def) (simp add: x5_def x1_def)
    next
      case False
      have em: "emit_atoms (s_outputIntSequence x4) (s_beats x4) = Inr p"
        using emit_atoms_take [of "s_beats x4" "s_outputIntSequence x4"] bi lp l4 par4(2)
        by (simp add: x4_def)
      show ?thesis using st1 st2' st3 st4 em False par4 inv4 sq(3) out
        by (simp add: euclid_bang_def n n3 x1_def)
    qed
    then obtain x' where h: "euclid_bang x = Inr (x', bang_output x) \<and>
      s_hits x' = s_hits x \<and> s_beats x' = s_beats x \<and> s_thisOffset x' = s_thisOffset x \<and>
      s_pingPongFlag x' = s_pingPongFlag x \<and> arrays_ok x' \<and>
      s_outputSequence x' = buf \<and> s_lastElement x' = l \<and> l \<le> s_lastElement x \<and>
      s_Sequence x' = sq" ..
    have ex: "\<exists>x1 x2. s_Sequence x1 = initial_buckets (s_hits x) (s_beats x) @ drop (nat (s_beats x)) (s_Sequence x) \<and>
         s_lastElement x1 = s_lastElement x \<and> euclid (s_hits x) (s_beats x) x1 = Inr x2 \<and>
         s_Sequence x' = s_Sequence x2"
      using st2' h bi by (intro exI [of _ x1] exI [of _ x2]) (simp add: x1_def x2_def)
    show ?thesis unfolding if_not_P [OF off_ok]
      by (rule exI [of _ x']) (use h lL sq(5) ex in \<open>simp add: buf_def L_def\<close>)
  qed
qed

lemma bang_frame:
  assumes "s_lastElement x < s_beats x"
  shows "bang_buckets x = bang_buckets (x\<lparr>s_Sequence := [], s_outputIntSequence := []\<rparr>) \<and>
    bang_output x = bang_output (x\<lparr>s_Sequence := [], s_outputIntSequence := []\<rparr>)"
proof -
  let ?I = "initial_buckets (s_hits x) (s_beats x)"
  have "length ?I = nat (s_beats x)" by (simp add: initial_buckets_def)
  moreover have "nat (s_lastElement x + 1) \<le> nat (s_beats x)" using assms by simp
  ultimately have t: "take (nat (s_lastElement x + 1)) (?I @ drop (nat (s_beats x)) (s_Sequence x))
      = take (nat (s_lastElement x + 1)) ?I" by simp
  have b1: "bang_buckets x = euclid_list (s_hits x) (s_beats x) (take (nat (s_lastElement x + 1)) ?I)"
    by (simp only: bang_buckets_def t)
  have b2: "bang_buckets (x\<lparr>s_Sequence := [], s_outputIntSequence := []\<rparr>)
      = euclid_list (s_hits x) (s_beats x) (take (nat (s_lastElement x + 1)) ?I)"
    by (simp add: bang_buckets_def)
  have "bang_output x = bang_output (x\<lparr>s_Sequence := [], s_outputIntSequence := []\<rparr>)"
    unfolding bang_output_def b1 b2 by simp
  then show ?thesis using b1 b2 by simp
qed

text \<open>A bang from a state whose arrays are only known through \<open>arrays_ok\<close>: its
  output and successor are those of a small record \<open>c\<close> agreeing on the other fields.\<close>

lemma bang_via_frame:
  assumes "arrays_ok x" "0 \<le> s_beats x" "s_beats x \<le> 64" "0 \<le> s_thisOffset x"
    "-1 \<le> s_lastElement x" "s_lastElement x < s_beats x" "\<not> (s_beats x = 0 \<and> 0 < s_thisOffset x)"
    "x\<lparr>s_Sequence := [], s_outputIntSequence := []\<rparr> = c"
    "fits_int (s_hits x)" "fits_int (s_thisOffset x)"
  shows "\<exists>x'. euclid_bang x = Inr (x', bang_output c) \<and>
    s_hits x' = s_hits c \<and> s_beats x' = s_beats c \<and> s_thisOffset x' = s_thisOffset c \<and>
    s_pingPongFlag x' = s_pingPongFlag c \<and> arrays_ok x' \<and>
    s_outputSequence x' = c_strcpy (s_outputSequence c) (concat (bang_buckets c)) \<and>
    s_lastElement x' = int (length (bang_buckets c)) - 1"
proof -
  have l: "s_lastElement x < 64" using assms(3,6) by simp
  have "\<exists>x'. euclid_bang x = Inr (x', bang_output x) \<and>
      s_hits x' = s_hits x \<and> s_beats x' = s_beats x \<and> s_thisOffset x' = s_thisOffset x \<and>
      s_pingPongFlag x' = s_pingPongFlag x \<and> arrays_ok x' \<and>
      s_outputSequence x' = c_strcpy (s_outputSequence x) (concat (bang_buckets x)) \<and>
      s_lastElement x' = int (length (bang_buckets x)) - 1"
    using bang_general [OF assms(1-5) l assms(9,10)] assms(7) by auto
  then show ?thesis using bang_frame [OF assms(6)] assms(8) by auto
qed

lemma bang_buckets_ready:
  "bang_ready x \<Longrightarrow>
    bang_buckets x = euclid_list (s_hits x) (s_beats x) (initial_buckets (s_hits x) (s_beats x))"
  by (simp add: bang_ready_def bang_buckets_def initial_buckets_length)

lemma bang_result:
  assumes "bang_ready x"
  shows "\<exists>x'. euclid_bang x =
      Inr (x', generate (s_hits x) (s_beats x) (s_thisOffset x) (s_pingPongFlag x = 1)) \<and>
    s_hits x' = s_hits x \<and> s_beats x' = s_beats x \<and> s_thisOffset x' = s_thisOffset x \<and>
    s_pingPongFlag x' = s_pingPongFlag x \<and> arrays_ok x' \<and>
    s_outputSequence x' = c_strcpy (s_outputSequence x)
      (concat (euclid_list (s_hits x) (s_beats x) (initial_buckets (s_hits x) (s_beats x))))"
proof -
  have r: "arrays_ok x" "1 \<le> s_beats x" "s_beats x \<le> 64" "0 \<le> s_thisOffset x"
    "s_lastElement x = s_beats x - 1"
    using assms by (simp_all add: bang_ready_def)
  let ?L = "euclid_list (s_hits x) (s_beats x) (initial_buckets (s_hits x) (s_beats x))"
  have bb: "bang_buckets x = ?L" using bang_buckets_ready [OF assms] .
  have lL: "length (concat ?L) = nat (s_beats x)" using r by (simp add: final_buckets_length)
  have "map (\<lambda>i. beat_value (c_byte (c_strcpy (s_outputSequence x) (concat ?L)) i)) [0..<nat (s_beats x)]
      = euclid_pattern (s_hits x) (s_beats x)"
    using map_beat_value_bytes [of "s_outputSequence x" "concat ?L"] lL by (simp add: euclid_pattern_def)
  then have "bang_output x = generate (s_hits x) (s_beats x) (s_thisOffset x) (s_pingPongFlag x = 1)"
    by (simp add: bang_output_def generate_def bb Let_def)
  moreover have "fits_int (s_hits x)" "fits_int (s_thisOffset x)" using assms by (simp_all add: bang_ready_def)
  ultimately show ?thesis using bang_general [OF r(1) _ r(3,4)] r bb by auto
qed

theorem euclid_pattern_mset:
  "mset (euclid_pattern hits beats) =
     replicate_mset (min (nat hits) (nat beats)) 1 + replicate_mset (nat beats - nat hits) 0"
proof -
  have "mset (euclid_pattern hits beats)
      = image_mset beat_value (mset (concat (initial_buckets hits beats)))"
    by (simp add: euclid_pattern_def euclid_list_conserves)
  also have "\<dots> = replicate_mset (min (nat hits) (nat beats)) 1 + replicate_mset (nat beats - nat hits) 0"
    by (simp add: initial_buckets_def concat_replicate_single beat_value_def)
  finally show ?thesis .
qed

text \<open>C14: With at least one hit and one beat the unrotated pattern starts with a hit.\<close>

theorem euclid_pattern_starts_with_hit:
  assumes "0 < hits" "0 < beats"
  shows "euclid_pattern hits beats ! 0 = 1"
proof -
  let ?bs = "initial_buckets hits beats"
  have l: "0 < length ?bs" and b0: "?bs ! 0 = ''1''"
    using assms by (simp_all add: initial_buckets_def nth_append)
  then obtain r where r: "prefix ''1'' (euclid_list hits beats ?bs ! 0)"
    and ne: "0 < length (euclid_list hits beats ?bs)"
    using euclid_list_first [of ?bs hits beats] by auto
  then obtain t where "euclid_list hits beats ?bs ! 0 = CHR ''1'' # t"
    by (auto simp: prefix_def)
  then obtain rest where "euclid_list hits beats ?bs = (CHR ''1'' # t) # rest"
    using ne by (cases "euclid_list hits beats ?bs") auto
  then show ?thesis by (simp add: euclid_pattern_def beat_value_def)
qed


lemma mset_eq_replicate: "mset xs = replicate_mset n a \<Longrightarrow> xs = replicate n a"
proof -
  assume m: "mset xs = replicate_mset n a"
  then have "length xs = n" by (metis size_mset size_replicate_mset)
  moreover have "\<forall>y \<in> set xs. y = a" using m by (metis in_multiset_in_set set_mset_replicate_mset_subset
      singletonD subsetD empty_iff set_mset_empty mset_zero_iff)
  ultimately show ?thesis by (metis replicate_length_same)
qed

lemma euclid_int_unfold:
  "0 \<le> s_beats x \<Longrightarrow> euclid_int x h =
     euclid_bang (x\<lparr>s_hits := (if h < 0 then 0 else min h (s_beats x)),
                    s_lastElement := c_int_of_long (s_beats x - 1)\<rparr>)"
  by (simp add: euclid_int_def Let_def min_def)

lemma euclid_in1_unfold:
  "euclid_in1 x v =
     euclid_bang (x\<lparr>s_beats := (if v > 64 then 64 else if v > 0 then v else 1),
                    s_lastElement := (if v > 64 then 64 else if v > 0 then v else 1) - 1\<rparr>)"
  by (simp add: euclid_in1_def Let_def)

lemma euclid_in2_unfold:
  "euclid_in2 x w =
     euclid_bang (x\<lparr>s_lastElement := c_int_of_long (s_beats x - 1),
                    s_thisOffset := (if w < 0 then 0 else min w 128)\<rparr>)"
  by (simp add: euclid_in2_def Let_def min_def)

lemma euclid_int_bang:
  "0 \<le> s_beats x \<Longrightarrow> s_beats x \<le> 64 \<Longrightarrow> euclid_int x h =
     euclid_bang (x\<lparr>s_hits := (if h < 0 then 0 else min h (s_beats x)),
                    s_lastElement := s_beats x - 1\<rparr>)"
  by (simp add: euclid_int_unfold)

lemma euclid_in2_bang:
  "0 \<le> s_beats x \<Longrightarrow> s_beats x \<le> 64 \<Longrightarrow> euclid_in2 x w =
     euclid_bang (x\<lparr>s_lastElement := s_beats x - 1,
                    s_thisOffset := (if w < 0 then 0 else min w 128)\<rparr>)"
  by (simp add: euclid_in2_unfold)

text \<open>C1: A bang on a prepared object (beats between 1 and 64, offset non-negative,
  \<open>s_lastElement = s_beats - 1\<close>, arrays of their declared lengths) runs without
  fault and emits exactly one \<open>sequence\<close> message, the pattern \<open>generate\<close> computes
  from the object's hits, beats, offset and ping-pong flag; the parameters are unchanged
  and the arrays keep their shape.\<close>

theorem euclid_message_bang:
  assumes "bang_ready x"
  shows "\<exists>x'. euclid_message x Msg_bang =
      Inr (x', [generate (s_hits x) (s_beats x) (s_thisOffset x) (s_pingPongFlag x = 1)]) \<and>
    s_hits x' = s_hits x \<and> s_beats x' = s_beats x \<and> s_thisOffset x' = s_thisOffset x \<and>
    s_pingPongFlag x' = s_pingPongFlag x \<and> arrays_ok x'"
  using bang_result [OF assms] by auto

text \<open>C2: Conservation: the flat pattern before rotation contains exactly
  \<open>min hits beats\<close> ones and \<open>beats - hits\<close> zeros, and nothing else.\<close>

theorem euclid_pattern_conservation:
  "count (mset (euclid_pattern hits beats)) 1 = min (nat hits) (nat beats) \<and>
   count (mset (euclid_pattern hits beats)) 0 = nat beats - nat hits \<and>
   set (euclid_pattern hits beats) \<subseteq> {0, 1}"
proof -
  have "set (euclid_pattern hits beats) = set_mset (mset (euclid_pattern hits beats))" by simp
  then show ?thesis by (auto simp: euclid_pattern_mset split: if_splits)
qed

text \<open>C6: The left inlet \<open>euclid_int\<close> clamps the hits to \<open>[0, beats]\<close> and emits
  the pattern for the clamped hits with the object's beats and offset.\<close>

theorem euclid_int_output:
  assumes "arrays_ok x" "1 \<le> s_beats x" "s_beats x \<le> 64" "0 \<le> s_thisOffset x"
    "fits_int (s_thisOffset x)"
  shows "\<exists>x'. euclid_int x h =
    Inr (x', generate (if h < 0 then 0 else min h (s_beats x)) (s_beats x) (s_thisOffset x)
               (s_pingPongFlag x = 1))"
proof -
  let ?x = "x\<lparr>s_hits := (if h < 0 then 0 else min h (s_beats x)),
    s_lastElement := c_int_of_long (s_beats x - 1)\<rparr>"
  have "bang_ready ?x" using assms by (simp add: bang_ready_def arrays_ok_def)
  then show ?thesis using bang_result [of ?x] assms by (auto simp: euclid_int_unfold)
qed

text \<open>C7: The beats inlet \<open>euclid_in1\<close> clamps the beats to \<open>[1, 64]\<close> and emits the
  pattern for the object's hits (not re-clamped) with the clamped beats.\<close>

theorem euclid_in1_output:
  assumes "arrays_ok x" "0 \<le> s_thisOffset x" "fits_int (s_thisOffset x)" "fits_int (s_hits x)"
  shows "\<exists>x'. euclid_in1 x v =
    Inr (x', generate (s_hits x) (if v > 64 then 64 else if v > 0 then v else 1) (s_thisOffset x)
               (s_pingPongFlag x = 1))"
proof -
  let ?b = "if v > 64 then 64 else if v > 0 then v else 1"
  let ?x = "x\<lparr>s_beats := ?b, s_lastElement := ?b - 1\<rparr>"
  have "bang_ready ?x" using assms by (simp add: bang_ready_def arrays_ok_def)
  then show ?thesis using bang_result [of ?x] by (auto simp: euclid_in1_unfold)
qed

text \<open>C8: The offset inlet \<open>euclid_in2\<close> clamps the offset to \<open>[0, 128]\<close> and emits
  the pattern rotated by the clamped offset.\<close>

theorem euclid_in2_output:
  assumes "arrays_ok x" "1 \<le> s_beats x" "s_beats x \<le> 64" "fits_int (s_hits x)"
  shows "\<exists>x'. euclid_in2 x v =
    Inr (x', generate (s_hits x) (s_beats x) (if v < 0 then 0 else min v 128)
               (s_pingPongFlag x = 1))"
proof -
  let ?x = "x\<lparr>s_lastElement := c_int_of_long (s_beats x - 1),
    s_thisOffset := (if v < 0 then 0 else min v 128)\<rparr>"
  have "bang_ready ?x" using assms by (simp add: bang_ready_def arrays_ok_def)
  then show ?thesis using bang_result [of ?x] by (auto simp: euclid_in2_unfold)
qed

text \<open>C12: Ping-pong: with the flag set, a bang emits \<open>2 * beats\<close> values whose second
  half mirrors the first: entry \<open>beats + i\<close> equals entry \<open>beats - 1 - i\<close>.\<close>

theorem euclid_bang_pingpong:
  assumes "bang_ready x" "s_pingPongFlag x = 1"
  shows "\<exists>x' out. euclid_bang x = Inr (x', out) \<and> length out = 2 * nat (s_beats x) \<and>
    (\<forall>i < nat (s_beats x). out ! (nat (s_beats x) + i) = out ! (nat (s_beats x) - 1 - i))"
proof -
  let ?p = "rotate_right (working (s_beats x) (s_thisOffset x)) (euclid_pattern (s_hits x) (s_beats x))"
  have lp: "length ?p = nat (s_beats x)"
    using assms(1) euclid_pattern_length by (simp add: bang_ready_def)
  have "\<forall>i < nat (s_beats x). (?p @ rev ?p) ! (nat (s_beats x) + i) = (?p @ rev ?p) ! (nat (s_beats x) - 1 - i)"
    using lp by (auto simp: nth_append rev_nth)
  then show ?thesis using bang_result [OF assms(1)] assms(2) lp by (auto simp: generate_def Let_def)
qed

text \<open>C15: After a bang the output string has exactly \<open>beats\<close> characters, so at
  64 beats the terminator goes to index 64 of the 64-byte buffer.\<close>

theorem euclid_bang_buffer_length:
  assumes "bang_ready x"
  shows "\<exists>x' out. euclid_bang x = Inr (x', out) \<and>
    c_strlen (s_outputSequence x') = nat (s_beats x)"
  using bang_result [OF assms] assms final_buckets_length final_buckets_no_nul
  by (auto simp: bang_ready_def)

end
