(* ===== verification/Safety.thy ===== *)
theory Safety
  imports Pipeline
begin

text \<open>
  The object invariant and what it buys: every state an object reaches through
  its messages has arrays of their declared lengths, parameters in the ranges
  the inlets clamp to, and an \<open>s_lastElement\<close> inside the bucket array; from
  such a state no message reads or writes out of bounds, and the only fault is
  the division by zero of the rotator while no beat count has been set.
\<close>

definition obj_ranges :: "t_euclid \<Rightarrow> bool" where
  "obj_ranges x \<longleftrightarrow> arrays_ok x \<and>
     0 \<le> s_hits x \<and> s_hits x \<le> 64 \<and> 0 \<le> s_beats x \<and> s_beats x \<le> 64 \<and>
     0 \<le> s_thisOffset x \<and> s_thisOffset x \<le> 128 \<and>
     -1 \<le> s_lastElement x \<and> s_lastElement x < 64"

text \<open>
  The invariant adds that no offset is stored while the beat count is 0: the
  rotator's \<open>%\<close> would divide by it.
\<close>

definition obj_inv :: "t_euclid \<Rightarrow> bool" where
  "obj_inv x \<longleftrightarrow> obj_ranges x \<and> (s_beats x = 0 \<longrightarrow> s_thisOffset x = 0)"

definition emits :: "message \<Rightarrow> bool" where
  "emits m = (case m of Msg_pingpong v \<Rightarrow> False | _ \<Rightarrow> True)"

lemma obj_inv_beats: "obj_inv x \<Longrightarrow> 0 \<le> s_beats x \<and> s_beats x \<le> 64"
  by (simp add: obj_inv_def obj_ranges_def)

lemma bang_total:
  assumes "obj_ranges x"
  shows "if s_beats x = 0 \<and> 0 < s_thisOffset x then euclid_bang x = Inl Division_by_zero
    else \<exists>x' out. euclid_bang x = Inr (x', out) \<and> obj_ranges x' \<and>
      s_hits x' = s_hits x \<and> s_beats x' = s_beats x \<and> s_thisOffset x' = s_thisOffset x"
proof -
  have r: "arrays_ok x" "0 \<le> s_beats x" "s_beats x \<le> 64" "0 \<le> s_thisOffset x"
    "-1 \<le> s_lastElement x" "s_lastElement x < 64" "fits_int (s_hits x)" "fits_int (s_thisOffset x)"
    using assms by (simp_all add: obj_ranges_def)
  show ?thesis
    using bang_general [OF r] assms by (auto simp: obj_ranges_def)
qed

lemma bang_step:
  assumes "obj_ranges y" "s_beats y = 0 \<longrightarrow> s_thisOffset y = 0"
  shows "\<exists>y' out. euclid_bang y = Inr (y', out) \<and> obj_inv y'"
  using bang_total [OF assms(1)] assms(2) by (auto simp: obj_inv_def)

lemma message_step:
  assumes "obj_inv x"
  shows "case euclid_message x m of
      Inr (x', out) \<Rightarrow> obj_inv x'
    | Inl e \<Rightarrow> e = Division_by_zero \<and> s_beats x = 0 \<and> (\<exists>v. m = Msg_in2 v \<and> 0 < v)"
proof (cases m)
  case Msg_bang
  then show ?thesis using bang_step [of x] assms by (auto simp: obj_inv_def)
next
  case (Msg_int v)
  let ?y = "x\<lparr>s_hits := (if v < 0 then 0 else min v (s_beats x)), s_lastElement := s_beats x - 1\<rparr>"
  have "obj_ranges ?y" "s_beats ?y = 0 \<longrightarrow> s_thisOffset ?y = 0"
    using assms by (auto simp: obj_inv_def obj_ranges_def arrays_ok_def min_def)
  then show ?thesis using bang_step [of ?y] assms Msg_int
    by (auto simp: obj_inv_def obj_ranges_def euclid_int_bang)
next
  case (Msg_in1 v)
  let ?b = "if v > 64 then 64 else if v > 0 then v else 1"
  let ?y = "x\<lparr>s_beats := ?b, s_lastElement := ?b - 1\<rparr>"
  have "obj_ranges ?y" "s_beats ?y = 0 \<longrightarrow> s_thisOffset ?y = 0"
    using assms by (auto simp: obj_inv_def obj_ranges_def arrays_ok_def)
  then show ?thesis using bang_step [of ?y] Msg_in1 by (auto simp: euclid_in1_unfold)
next
  case (Msg_in2 v)
  let ?o = "if v < 0 then 0 else min v 128"
  let ?y = "x\<lparr>s_lastElement := s_beats x - 1, s_thisOffset := ?o\<rparr>"
  have r: "obj_ranges ?y" using assms by (auto simp: obj_inv_def obj_ranges_def arrays_ok_def)
  show ?thesis
  proof (cases "s_beats x = 0 \<and> 0 < ?o")
    case True
    then have "euclid_bang ?y = Inl Division_by_zero" using bang_total [OF r] by simp
    moreover have "0 < v" using True by (auto split: if_splits)
    ultimately show ?thesis using True Msg_in2 obj_inv_beats [OF assms] by (simp add: euclid_in2_bang)
  next
    case False
    then show ?thesis using bang_step [of ?y] r Msg_in2 obj_inv_beats [OF assms] by (auto simp: euclid_in2_bang)
  qed
next
  case (Msg_pingpong v)
  then show ?thesis using assms by (simp add: obj_inv_def obj_ranges_def arrays_ok_def)
qed

lemma bang_beats:
  assumes "obj_ranges y" "1 \<le> s_beats y" "euclid_bang y = Inr (y', out)"
  shows "s_beats y' = s_beats y"
  using bang_total [OF assms(1)] assms(2,3) by auto

lemma fbind_emit:
  "fbind r (\<lambda>(x, out). Inr (x, [out])) = Inr (x', outs) \<longleftrightarrow>
     (\<exists>out. r = Inr (x', out) \<and> outs = [out])"
  by (cases r) (auto simp: fbind_def)

lemma message_beats:
  assumes "obj_inv x" "1 \<le> s_beats x" "euclid_message x m = Inr (x', outs)"
  shows "1 \<le> s_beats x' \<and> length outs = (if emits m then 1 else 0)"
proof (cases m)
  case Msg_bang
  then obtain out where "euclid_bang x = Inr (x', out)" "outs = [out]"
    using assms(3) by (auto simp only: euclid_message.simps fbind_emit)
  moreover have "obj_ranges x" using assms(1) by (simp add: obj_inv_def)
  ultimately show ?thesis using bang_beats [of x x'] assms(2) Msg_bang by (simp add: emits_def)
next
  case (Msg_int v)
  let ?y = "x\<lparr>s_hits := (if v < 0 then 0 else min v (s_beats x)), s_lastElement := s_beats x - 1\<rparr>"
  have "euclid_int x v = euclid_bang ?y" using obj_inv_beats [OF assms(1)] by (simp add: euclid_int_bang)
  then obtain out where "euclid_bang ?y = Inr (x', out)" "outs = [out]"
    using assms(3) Msg_int by (auto simp only: euclid_message.simps fbind_emit)
  moreover have "obj_ranges ?y" using assms(1) by (auto simp: obj_inv_def obj_ranges_def arrays_ok_def min_def)
  ultimately show ?thesis using bang_beats [of ?y x'] assms(2) Msg_int by (simp add: emits_def)
next
  case (Msg_in1 v)
  let ?b = "if v > 64 then 64 else if v > 0 then v else 1"
  let ?y = "x\<lparr>s_beats := ?b, s_lastElement := ?b - 1\<rparr>"
  have "euclid_in1 x v = euclid_bang ?y" by (simp add: euclid_in1_unfold)
  then obtain out where "euclid_bang ?y = Inr (x', out)" "outs = [out]"
    using assms(3) Msg_in1 by (auto simp only: euclid_message.simps fbind_emit)
  moreover have "obj_ranges ?y" using assms(1) by (auto simp: obj_inv_def obj_ranges_def arrays_ok_def)
  moreover have "1 \<le> s_beats ?y" by simp
  ultimately show ?thesis using bang_beats [of ?y x'] Msg_in1 by (simp add: emits_def)
next
  case (Msg_in2 v)
  let ?y = "x\<lparr>s_lastElement := s_beats x - 1, s_thisOffset := (if v < 0 then 0 else min v 128)\<rparr>"
  have "euclid_in2 x v = euclid_bang ?y" using obj_inv_beats [OF assms(1)] by (simp add: euclid_in2_bang)
  then obtain out where "euclid_bang ?y = Inr (x', out)" "outs = [out]"
    using assms(3) Msg_in2 by (auto simp only: euclid_message.simps fbind_emit)
  moreover have "obj_ranges ?y" using assms(1) by (auto simp: obj_inv_def obj_ranges_def arrays_ok_def)
  ultimately show ?thesis using bang_beats [of ?y x'] assms(2) Msg_in2 by (simp add: emits_def)
next
  case (Msg_pingpong v)
  then show ?thesis using assms by (auto simp: emits_def)
qed

lemma obj_inv_new: "obj_inv (euclid_new n)"
  by (simp add: obj_inv_def obj_ranges_def arrays_ok_new)
    (simp add: euclid_new_def)

text \<open>C3: Every state an object reaches from its creation through handled messages satisfies
  the object invariant: arrays of their declared lengths with NUL-free rows, hits and beats in
  \<open>[0, 64]\<close>, offset in \<open>[0, 128]\<close>, \<open>s_lastElement\<close> in \<open>[-1, 63]\<close>, and no offset
  while the beat count is 0.\<close>

theorem reachable_obj_inv: "reachable x \<Longrightarrow> obj_inv x"
proof (induction rule: reachable.induct)
  case (created n)
  then show ?case by (rule obj_inv_new)
next
  case (handled x m x' out)
  then show ?case using message_step [OF handled.IH, of m] by simp
qed

end
