(* ===== verification/Host.thy ===== *)
theory Host
  imports Safety
begin

text \<open>
  The host-facing code of \<^verbatim>\<open>euclid.c\<close>: \<open>main\<close> (lines 74--95), which
  builds the class with its method table and attribute and stores it in the
  global \<open>euclid_class\<close>, the host's delivery of a message through that table,
  and \<open>euclid_assist\<close> (lines 124--141), which writes
  the help string of an inlet or the outlet into the host's buffer with
  \<open>sprintf\<close>. The selector codes \<open>ASSIST_INLET = 1\<close> and \<open>ASSIST_OUTLET = 2\<close>
  are the values of the Max SDK header \<^verbatim>\<open>ext_obex.h\<close>, which the source
  includes and does not define.
\<close>

definition ASSIST_INLET :: c_long where
  "ASSIST_INLET = 1"

definition ASSIST_OUTLET :: c_long where
  "ASSIST_OUTLET = 2"

text \<open>
  The class \<open>main\<close> builds (lines 74--95). A method is registered with the
  argument types it takes: none for \<open>"bang"\<close>, \<open>A_LONG\<close> for the three integer
  inlets, \<open>A_CANT\<close> for \<open>"assist"\<close>, which only the host calls; the
  \<open>"pingpong"\<close> attribute of \<open>CLASS_ATTR_LONG\<close> gets the SDK's default setter,
  which stores the long into \<open>s_pingPongFlag\<close>. \<open>class_new\<close>,
  \<open>class_addmethod\<close> and \<open>class_attr_long\<close> stand for the SDK calls by their
  effect on the class's tables; \<open>class_register\<close> only publishes the class.
\<close>

datatype arg_type = A_LONG | A_CANT | A_DEFLONG

datatype handler =
    Meth_nothing "t_euclid \<Rightarrow> fault + t_euclid \<times> c_long list"
  | Meth_long "t_euclid \<Rightarrow> c_long \<Rightarrow> fault + t_euclid \<times> c_long list"
  | Meth_cant

record t_class =
  class_name :: string
  class_new_args :: "arg_type list"
  class_methods :: "(string \<times> handler) list"
  class_attrs :: "(string \<times> (t_euclid \<Rightarrow> c_long \<Rightarrow> t_euclid)) list"

definition class_new :: "string \<Rightarrow> arg_type list \<Rightarrow> t_class" where
  "class_new name args = \<lparr>class_name = name, class_new_args = args, class_methods = [], class_attrs = []\<rparr>"

definition class_addmethod :: "t_class \<Rightarrow> handler \<Rightarrow> string \<Rightarrow> t_class" where
  "class_addmethod c m sel = c\<lparr>class_methods := class_methods c @ [(sel, m)]\<rparr>"

definition class_attr_long :: "t_class \<Rightarrow> string \<Rightarrow> (t_euclid \<Rightarrow> c_long \<Rightarrow> t_euclid) \<Rightarrow> t_class" where
  "class_attr_long c name setter = c\<lparr>class_attrs := class_attrs c @ [(name, setter)]\<rparr>"

definition euclid_main :: t_class where
  "euclid_main =
     (let c = class_new ''mattbot.euclid'' [A_DEFLONG];
          c = class_addmethod c (Meth_nothing euclid_bang) ''bang'';
          c = class_addmethod c (Meth_long euclid_int) ''int'';
          c = class_addmethod c (Meth_long euclid_in1) ''in1'';
          c = class_addmethod c (Meth_long euclid_in2) ''in2'';
          c = class_addmethod c Meth_cant ''assist''
      in class_attr_long c ''pingpong'' (\<lambda>x v. x\<lparr>s_pingPongFlag := v\<rparr>))"

text \<open>
  The program's one global, \<open>void *euclid_class\<close> (line 70), unset until \<open>main\<close>
  runs; \<open>main\<close> builds the class, registers it, stores it in the global and
  returns 0.
\<close>

record t_globals =
  euclid_class :: "t_class option"

definition main :: "t_globals \<Rightarrow> t_globals \<times> int" where
  "main g = (let c = euclid_main in (g\<lparr>euclid_class := Some c\<rparr>, 0))"

text \<open>
  How the host delivers a message with selector \<open>sel\<close> and integer \<open>v\<close> to an
  instance of class \<open>c\<close>: the first method registered under the selector, called
  with the argument its types ask for; an \<open>A_CANT\<close> method cannot be sent from a
  patch; otherwise the attribute of that name is set, without output; \<open>None\<close>
  when the class has neither.
\<close>

definition class_message ::
  "t_class \<Rightarrow> t_euclid \<Rightarrow> string \<Rightarrow> c_long \<Rightarrow> (fault + t_euclid \<times> c_long list list) option" where
  "class_message c x sel v =
     (case map_of (class_methods c) sel of
        Some (Meth_nothing f) \<Rightarrow> Some (fbind (f x) (\<lambda>(x, out). Inr (x, [out])))
      | Some (Meth_long f) \<Rightarrow> Some (fbind (f x v) (\<lambda>(x, out). Inr (x, [out])))
      | Some Meth_cant \<Rightarrow> None
      | None \<Rightarrow> (case map_of (class_attrs c) sel of
                  Some setter \<Rightarrow> Some (Inr (setter x v, []))
                | None \<Rightarrow> None))"

text \<open>
  \<open>sprintf(s, "Inlet %ld: ...", a)\<close> with \<open>a\<close> the inlet number: the digit of
  \<open>a\<close> in the three cases where it is printed.
\<close>

definition euclid_assist :: "c_long \<Rightarrow> c_long \<Rightarrow> c_str \<Rightarrow> c_str" where
  "euclid_assist m a s =
     (if m = ASSIST_OUTLET then ''Generated sequence output''
      else if a = 0 then ''Inlet 0: Hits (Causes Output)''
      else if a = 1 then ''Inlet 1: Beats (Causes Output)''
      else if a = 2 then ''Inlet 2: thisOffset (Causes Output)''
      else s)"


lemma message_emits_one:
  assumes "obj_inv x" "1 \<le> s_beats x" "emits m"
  shows "\<exists>x' out. euclid_message x m = Inr (x', [out])"
proof -
  obtain x' outs where r: "euclid_message x m = Inr (x', outs)"
    using message_step [OF assms(1), of m] assms(2) by (cases "euclid_message x m") auto
  then have "length outs = 1" using message_beats [OF assms(1,2) r] assms(3) by simp
  then obtain out where "outs = [out]" by (cases outs) auto
  then show ?thesis using r by blast
qed

end
