(* ===== verification/Events.thy ===== *)
theory Events
  imports Safety
begin

text \<open>
  The \<open>sequence\<close> events an object emits, seen from the host: every message
  other than the attribute setter goes through one bang, whose atoms are the
  bytes of the pattern buffer read as 0/1 values, rotated and possibly
  mirrored. Here that is made a typing fact of the events: from any
  invariant state every emitted list holds only 0s and 1s and has the length
  the beat count and the ping-pong flag of the new state give. An attribute
  change takes effect at the next bang, not before.
\<close>

lemma beat_value_bit: "beat_value c \<in> {0, 1}"
  by (simp add: beat_value_def)

lemma bang_output_shape:
  assumes "0 \<le> s_beats x"
  shows "set (bang_output x) \<subseteq> {0, 1} \<and>
    length (bang_output x) = (if s_pingPongFlag x = 1 then 2 else 1) * nat (s_beats x)"
proof -
  define raw where "raw = map (\<lambda>i. beat_value (c_byte (c_strcpy (s_outputSequence x)
      (concat (bang_buckets x))) i)) [0..<nat (s_beats x)]"
  have s: "set raw \<subseteq> {0, 1}" using beat_value_bit by (auto simp: raw_def)
  have l: "length raw = nat (s_beats x)" by (simp add: raw_def)
  show ?thesis using s l
    by (simp add: bang_output_def Let_def flip: raw_def)
qed

text \<open>A bang from a state in range emits \<open>bang_output\<close> and keeps the beat count
  and the flag.\<close>

lemma bang_ranges_output:
  assumes "obj_ranges y" "euclid_bang y = Inr (y', out)"
  shows "out = bang_output y \<and> s_beats y' = s_beats y \<and> s_pingPongFlag y' = s_pingPongFlag y"
proof -
  have r: "arrays_ok y" "0 \<le> s_beats y" "s_beats y \<le> 64" "0 \<le> s_thisOffset y"
    "-1 \<le> s_lastElement y" "s_lastElement y < 64" "fits_int (s_hits y)" "fits_int (s_thisOffset y)"
    using assms(1) by (simp_all add: obj_ranges_def)
  show ?thesis using bang_general [OF r] assms(2) by (auto split: if_splits)
qed

text \<open>Every message from an invariant state either emits nothing (the attribute
  setter) or is one bang from a state in range, whose event is the whole output.\<close>

lemma message_bang_form:
  assumes "obj_inv x" "euclid_message x m = Inr (x', outs)"
  shows "(outs = [] \<and> (\<exists>v. m = Msg_pingpong v \<and> x' = x\<lparr>s_pingPongFlag := v\<rparr>)) \<or>
    (\<exists>y out. obj_ranges y \<and> euclid_bang y = Inr (x', out) \<and> outs = [out] \<and>
       s_Sequence y = s_Sequence x \<and> s_outputSequence y = s_outputSequence x \<and>
       s_beats y = (case m of Msg_in1 v \<Rightarrow> if v > 64 then 64 else if v > 0 then v else 1
                             | _ \<Rightarrow> s_beats x) \<and>
       (y = x \<or> s_lastElement y = s_beats y - 1))"
proof -
  have b: "0 \<le> s_beats x" "s_beats x \<le> 64" using obj_inv_beats [OF assms(1)] by simp_all
  have ok: "obj_ranges x" using assms(1) by (simp add: obj_inv_def)
  have one: "obj_ranges y \<Longrightarrow> fbind (euclid_bang y) (\<lambda>(x, out). Inr (x, [out])) = Inr (x', outs) \<Longrightarrow>
      \<exists>out. euclid_bang y = Inr (x', out) \<and> outs = [out]" for y
    by (auto simp only: fbind_emit)
  show ?thesis
  proof (cases m)
    case Msg_bang
    then obtain out where "euclid_bang x = Inr (x', out)" "outs = [out]"
      using one [OF ok] assms(2) by auto
    then show ?thesis using ok Msg_bang by (intro disjI2 exI [of _ x] exI [of _ out]) simp
  next
    case (Msg_int v)
    let ?y = "x\<lparr>s_hits := (if v < 0 then 0 else min v (s_beats x)), s_lastElement := s_beats x - 1\<rparr>"
    have r: "obj_ranges ?y" using ok by (auto simp: obj_ranges_def arrays_ok_def min_def)
    obtain out where o: "euclid_bang ?y = Inr (x', out)" "outs = [out]"
      using one [OF r] assms(2) Msg_int b by (auto simp: euclid_int_bang)
    show ?thesis using r o Msg_int b by (intro disjI2 exI [of _ ?y] exI [of _ out]) simp
  next
    case (Msg_in1 v)
    let ?b = "if v > 64 then 64 else if v > 0 then v else 1"
    let ?y = "x\<lparr>s_beats := ?b, s_lastElement := ?b - 1\<rparr>"
    have r: "obj_ranges ?y" using ok by (auto simp: obj_ranges_def arrays_ok_def)
    obtain out where o: "euclid_bang ?y = Inr (x', out)" "outs = [out]"
      using one [OF r] assms(2) Msg_in1 by (auto simp: euclid_in1_unfold)
    show ?thesis using r o Msg_in1 by (intro disjI2 exI [of _ ?y] exI [of _ out]) simp
  next
    case (Msg_in2 v)
    let ?y = "x\<lparr>s_lastElement := s_beats x - 1, s_thisOffset := (if v < 0 then 0 else min v 128)\<rparr>"
    have r: "obj_ranges ?y" using ok by (auto simp: obj_ranges_def arrays_ok_def)
    obtain out where o: "euclid_bang ?y = Inr (x', out)" "outs = [out]"
      using one [OF r] assms(2) Msg_in2 b by (auto simp: euclid_in2_bang)
    show ?thesis using r o Msg_in2 b by (intro disjI2 exI [of _ ?y] exI [of _ out]) simp
  next
    case (Msg_pingpong v)
    then show ?thesis using assms(2) by auto
  qed
qed

text \<open>The shape of every event: 0/1 values, \<open>beats\<close> of them, or twice as many with
  the ping-pong flag 1.\<close>

lemma message_events_shape:
  assumes "obj_inv x" "euclid_message x m = Inr (x', outs)"
  shows "\<forall>out \<in> set outs. set out \<subseteq> {0, 1} \<and>
    length out = (if s_pingPongFlag x' = 1 then 2 else 1) * nat (s_beats x')"
proof -
  consider (pp) "outs = []"
    | (bang) y out where "obj_ranges y" "euclid_bang y = Inr (x', out)" "outs = [out]"
    using message_bang_form [OF assms] by blast
  then show ?thesis
  proof cases
    case pp
    then show ?thesis by simp
  next
    case bang
    have "0 \<le> s_beats y" using bang(1) by (simp add: obj_ranges_def)
    then show ?thesis using bang_output_shape [of y] bang_ranges_output [OF bang(1,2)] bang(3) by simp
  qed
qed

text \<open>C22: Every \<open>sequence\<close> event a message emits from an invariant state is a list of
  0s and 1s whose length is the new beat count, doubled when the ping-pong flag is 1.\<close>

theorem euclid_message_output_type:
  assumes "obj_inv x" "euclid_message x m = Inr (x', outs)"
  shows "\<forall>out \<in> set outs. set out \<subseteq> {0, 1} \<and>
    length out = (if s_pingPongFlag x' = 1 then 2 else 1) * nat (s_beats x')"
  using message_events_shape [OF assms] .

end
