(* ===== verification/Laws.thy ===== *)
theory Laws
  imports Events
begin

text \<open>
  Laws of the object's messages that hold for every parameter value rather than
  at a fixture: an inlet message repeated emits the same event again (each
  inlet resets \<open>s_lastElement\<close>, unlike a bare bang); the offset acts modulo
  the beat count; and a single hit gathers the whole pattern in one bucket row,
  which at 64 beats no longer fits the 64-byte row of \<open>s_Sequence\<close>.
\<close>

text \<open>A bang from an invariant state whose \<open>s_lastElement\<close> has been reset emits the
  spec's pattern for its parameters, keeps them, and keeps the invariant.\<close>

lemma ready_generate:
  assumes "obj_inv y" "1 \<le> s_beats y" "s_lastElement y = s_beats y - 1"
  shows "\<exists>y'. euclid_bang y = Inr (y', generate (s_hits y) (s_beats y) (s_thisOffset y) (s_pingPongFlag y = 1)) \<and>
    obj_inv y' \<and> s_hits y' = s_hits y \<and> s_beats y' = s_beats y \<and> s_thisOffset y' = s_thisOffset y \<and>
    s_pingPongFlag y' = s_pingPongFlag y"
proof -
  have ok: "obj_ranges y" using assms(1) by (simp add: obj_inv_def)
  have r: "bang_ready y" using ok assms(2,3) by (simp add: bang_ready_def obj_ranges_def)
  obtain y' where e: "euclid_bang y = Inr (y', generate (s_hits y) (s_beats y) (s_thisOffset y) (s_pingPongFlag y = 1))"
    using bang_result [OF r] by blast
  have "obj_ranges y' \<and> s_hits y' = s_hits y \<and> s_beats y' = s_beats y \<and> s_thisOffset y' = s_thisOffset y"
    using bang_total [OF ok] assms(2) e by auto
  moreover have "s_pingPongFlag y' = s_pingPongFlag y" using bang_ranges_output [OF ok e] by simp
  ultimately show ?thesis using e assms(2) by (auto simp: obj_inv_def)
qed

lemma run_two:
  "euclid_message x m = Inr (x1, [o1]) \<Longrightarrow> euclid_message x1 m = Inr (x2, [o2]) \<Longrightarrow>
   euclid_run x [m, m] = Inr (x2, [o1, o2])"
  by (simp add: fbind_def)

lemma bang_message:
  "euclid_bang y = Inr (y', out) \<Longrightarrow> euclid_bang y = z \<Longrightarrow>
   fbind z (\<lambda>(x, out). Inr (x, [out])) = Inr (y', [out])"
  by (simp add: fbind_def)

text \<open>The offset is taken modulo the beat count: \<open>o\<close> and \<open>o + beats\<close> give the
  same pattern, \<open>beats\<close> itself acting as the identity rotation.\<close>

lemma rotate_right_length: "rotate_right (length xs) xs = xs"
  by (simp add: rotate_right_def)

lemma generate_period:
  assumes "1 \<le> b" "0 \<le> off"
  shows "generate h b (off + b) pp = generate h b off pp"
proof -
  let ?p = "euclid_pattern h b"
  have l: "length ?p = nat b" using assms(1) by (simp add: euclid_pattern_length)
  have id: "rotate_right (working b k) ?p = ?p" if "k = 0 \<or> k = b \<or> k = 2 * b" for k
  proof -
    have "working b k = 0 \<or> working b k = length ?p" using that l assms(1) by (auto simp: working_def)
    then show ?thesis by (auto simp: rotate_right_length rotate_right_def)
  qed
  have w: "rotate_right (working b (off + b)) ?p = rotate_right (working b off) ?p"
  proof (cases "off = 0 \<or> off = b")
    case True
    then show ?thesis using id [of off] id [of "off + b"] by auto
  next
    case False
    have "(off + b) mod b = off mod b" by simp
    moreover have "off < b \<Longrightarrow> off mod b = off" using assms by simp
    ultimately have "working b (off + b) = working b off"
      using False assms by (auto simp: working_def)
    then show ?thesis by simp
  qed
  then show ?thesis by (simp add: generate_def Let_def)
qed

text \<open>C23: One hit over any beat count: the pattern is a hit followed by \<open>beats - 1\<close>
  rests, and the distributor leaves it as a single bucket, row 0 of \<open>s_Sequence\<close>
  holding all \<open>beats\<close> characters; at 64 beats the row and its terminator need
  65 bytes of a 64-byte row.\<close>

theorem euclid_bang_one_hit:
  assumes "bang_ready x" "s_hits x = 1"
  shows "euclid_pattern 1 (s_beats x) = 1 # replicate (nat (s_beats x) - 1) 0 \<and>
    (\<exists>x' out. euclid_bang x = Inr (x', out) \<and> s_lastElement x' = 0 \<and>
       s_Sequence x' ! 0 = CHR ''1'' # replicate (nat (s_beats x) - 1) CHR ''0'')"
proof -
  let ?row = "CHR ''1'' # replicate (nat (s_beats x) - 1) CHR ''0''"
  have r: "arrays_ok x" "0 \<le> s_beats x" "s_beats x \<le> 64" "0 \<le> s_thisOffset x"
    "-1 \<le> s_lastElement x" "s_lastElement x < 64" "fits_int (s_hits x)" "fits_int (s_thisOffset x)"
    and b: "1 \<le> s_beats x"
    using assms(1) by (simp_all add: bang_ready_def)
  have L: "euclid_list 1 (s_beats x) (initial_buckets 1 (s_beats x)) = [?row]"
    using euclid_list_one_hit [OF b] .
  have bb: "bang_buckets x = [?row]" using bang_buckets_ready [OF assms(1)] L assms(2) by simp
  obtain x' where e: "euclid_bang x = Inr (x', bang_output x)"
    and l: "s_lastElement x' = int (length (bang_buckets x)) - 1"
    and t: "take (nat (s_lastElement x' + 1)) (s_Sequence x') = bang_buckets x"
    using bang_general [OF r] b by auto
  have l0: "s_lastElement x' = 0" using l bb by simp
  then have "take 1 (s_Sequence x') = [?row]" using t bb by simp
  then have "s_Sequence x' ! 0 = ?row" by (cases "s_Sequence x'") auto
  moreover have "euclid_pattern 1 (s_beats x) = 1 # replicate (nat (s_beats x) - 1) 0"
    using L by (simp add: euclid_pattern_def beat_value_def)
  ultimately show ?thesis using e l0 by blast
qed

text \<open>C24: Inlet messages are repeatable: from an invariant state with a beat count
  set, sending the same \<open>int\<close>, \<open>in1\<close> or \<open>in2\<close> message twice emits the same event
  twice, because each inlet resets \<open>s_lastElement\<close> before its bang (contrast the
  bare bang, \<open>fixture_stale_bang\<close>).\<close>

theorem euclid_inlet_repeat:
  assumes "obj_inv x" "1 \<le> s_beats x" "m \<in> {Msg_int v, Msg_in1 v, Msg_in2 v}"
  shows "\<exists>x' out. euclid_run x [m, m] = Inr (x', [out, out])"
proof -
  have bx: "0 \<le> s_beats x" "s_beats x \<le> 64" using obj_inv_beats [OF assms(1)] by simp_all
  have ok: "obj_ranges x" using assms(1) by (simp add: obj_inv_def)
  consider (int) "m = Msg_int v" | (in1) "m = Msg_in1 v" | (in2) "m = Msg_in2 v" using assms(3) by blast
  then show ?thesis
  proof cases
    case int
    let ?c = "\<lambda>b. if v < 0 then 0 else min v b"
    let ?y = "x\<lparr>s_hits := ?c (s_beats x), s_lastElement := s_beats x - 1\<rparr>"
    have "obj_inv ?y" using assms(1,2) by (auto simp: obj_inv_def obj_ranges_def arrays_ok_def min_def)
    then obtain x1 where e1: "euclid_bang ?y = Inr (x1, generate (?c (s_beats x)) (s_beats x) (s_thisOffset x) (s_pingPongFlag x = 1))"
      and i1: "obj_inv x1" and p1: "s_hits x1 = ?c (s_beats x)" "s_beats x1 = s_beats x"
        "s_thisOffset x1 = s_thisOffset x" "s_pingPongFlag x1 = s_pingPongFlag x"
      using ready_generate [of ?y] assms(2) by auto
    let ?y2 = "x1\<lparr>s_hits := ?c (s_beats x1), s_lastElement := s_beats x1 - 1\<rparr>"
    have "obj_inv ?y2" using i1 p1 assms(2) by (auto simp: obj_inv_def obj_ranges_def arrays_ok_def min_def)
    then obtain x2 where e2: "euclid_bang ?y2 = Inr (x2, generate (?c (s_beats x)) (s_beats x) (s_thisOffset x) (s_pingPongFlag x = 1))"
      using ready_generate [of ?y2] assms(2) p1 by auto
    have "euclid_message x m = Inr (x1, [generate (?c (s_beats x)) (s_beats x) (s_thisOffset x) (s_pingPongFlag x = 1)])"
      using bang_message [OF e1] int bx by (simp add: euclid_int_bang)
    moreover have "euclid_message x1 m = Inr (x2, [generate (?c (s_beats x)) (s_beats x) (s_thisOffset x) (s_pingPongFlag x = 1)])"
      using bang_message [OF e2] int bx p1 by (simp add: euclid_int_bang)
    ultimately show ?thesis using run_two by blast
  next
    case in1
    let ?b = "if v > 64 then 64 else if v > 0 then v else 1"
    let ?y = "x\<lparr>s_beats := ?b, s_lastElement := ?b - 1\<rparr>"
    have b1: "1 \<le> ?b" by simp
    have "obj_inv ?y" using ok by (auto simp: obj_inv_def obj_ranges_def arrays_ok_def)
    then obtain x1 where e1: "euclid_bang ?y = Inr (x1, generate (s_hits x) ?b (s_thisOffset x) (s_pingPongFlag x = 1))"
      and i1: "obj_inv x1" and p1: "s_hits x1 = s_hits x" "s_beats x1 = ?b"
        "s_thisOffset x1 = s_thisOffset x" "s_pingPongFlag x1 = s_pingPongFlag x"
      using ready_generate [of ?y] b1 by auto
    let ?y2 = "x1\<lparr>s_beats := ?b, s_lastElement := ?b - 1\<rparr>"
    have "obj_inv ?y2" using i1 by (auto simp: obj_inv_def obj_ranges_def arrays_ok_def)
    then obtain x2 where e2: "euclid_bang ?y2 = Inr (x2, generate (s_hits x) ?b (s_thisOffset x) (s_pingPongFlag x = 1))"
      using ready_generate [of ?y2] b1 p1 by auto
    have "euclid_message x m = Inr (x1, [generate (s_hits x) ?b (s_thisOffset x) (s_pingPongFlag x = 1)])"
      using bang_message [OF e1] in1 by (simp add: euclid_in1_unfold)
    moreover have "euclid_message x1 m = Inr (x2, [generate (s_hits x) ?b (s_thisOffset x) (s_pingPongFlag x = 1)])"
      using bang_message [OF e2] in1 by (simp add: euclid_in1_unfold)
    ultimately show ?thesis using run_two by blast
  next
    case in2
    let ?o = "if v < 0 then 0 else min v 128"
    let ?y = "x\<lparr>s_lastElement := s_beats x - 1, s_thisOffset := ?o\<rparr>"
    have "obj_inv ?y" using ok assms(2) by (auto simp: obj_inv_def obj_ranges_def arrays_ok_def)
    then obtain x1 where e1: "euclid_bang ?y = Inr (x1, generate (s_hits x) (s_beats x) ?o (s_pingPongFlag x = 1))"
      and i1: "obj_inv x1" and p1: "s_hits x1 = s_hits x" "s_beats x1 = s_beats x"
        "s_thisOffset x1 = ?o" "s_pingPongFlag x1 = s_pingPongFlag x"
      using ready_generate [of ?y] assms(2) by auto
    let ?y2 = "x1\<lparr>s_lastElement := s_beats x1 - 1, s_thisOffset := ?o\<rparr>"
    have "obj_inv ?y2" using i1 p1 assms(2) by (auto simp: obj_inv_def obj_ranges_def arrays_ok_def)
    then obtain x2 where e2: "euclid_bang ?y2 = Inr (x2, generate (s_hits x) (s_beats x) ?o (s_pingPongFlag x = 1))"
      using ready_generate [of ?y2] assms(2) p1 by auto
    have "euclid_message x m = Inr (x1, [generate (s_hits x) (s_beats x) ?o (s_pingPongFlag x = 1)])"
      using bang_message [OF e1] in2 bx by (simp add: euclid_in2_bang)
    moreover have "euclid_message x1 m = Inr (x2, [generate (s_hits x) (s_beats x) ?o (s_pingPongFlag x = 1)])"
      using bang_message [OF e2] in2 bx p1 by (simp add: euclid_in2_bang)
    ultimately show ?thesis using run_two by blast
  qed
qed

text \<open>C25: The offset inlet is periodic in the beat count: from an invariant state
  with beats set, offsets \<open>o\<close> and \<open>o + beats\<close> (both within the clamp) emit the
  same event; in particular offset \<open>beats\<close> acts as offset 0.\<close>

theorem euclid_in2_periodic:
  assumes "obj_inv x" "1 \<le> s_beats x" "0 \<le> off" "off + s_beats x \<le> 128"
  shows "\<exists>x1 x2 out. euclid_in2 x off = Inr (x1, out) \<and> euclid_in2 x (off + s_beats x) = Inr (x2, out)"
proof -
  have bx: "0 \<le> s_beats x" "s_beats x \<le> 64" using obj_inv_beats [OF assms(1)] by simp_all
  have one: "\<exists>x'. euclid_in2 x k = Inr (x', generate (s_hits x) (s_beats x) k (s_pingPongFlag x = 1))"
    if "0 \<le> k" "k \<le> 128" for k
  proof -
    let ?y = "x\<lparr>s_lastElement := s_beats x - 1, s_thisOffset := k\<rparr>"
    have "obj_inv ?y" using assms(1,2) that by (auto simp: obj_inv_def obj_ranges_def arrays_ok_def)
    then obtain y' where "euclid_bang ?y = Inr (y', generate (s_hits x) (s_beats x) k (s_pingPongFlag x = 1))"
      using ready_generate [of ?y] assms(2) by auto
    then show ?thesis using that bx by (simp add: euclid_in2_bang)
  qed
  obtain x1 where e1: "euclid_in2 x off = Inr (x1, generate (s_hits x) (s_beats x) off (s_pingPongFlag x = 1))"
    using one [of off] assms(3,4) bx by auto
  obtain x2 where e2: "euclid_in2 x (off + s_beats x) =
      Inr (x2, generate (s_hits x) (s_beats x) (off + s_beats x) (s_pingPongFlag x = 1))"
    using one [of "off + s_beats x"] assms(3,4) bx by auto
  show ?thesis using e1 e2 generate_period [OF assms(2,3)] by auto
qed

end
