(* ===== verification/Row_Bounds.thy ===== *)
theory Row_Bounds
  imports Distributor_Refinement
begin

text \<open>
  Lengths of the bucket rows. The C rows are \<open>char s_Sequence[64][64]\<close> (line 47),
  while the model's rows are unbounded strings; what keeps the code inside them is
  this bound: a fold appends the last active row to an earlier one, so a row the
  distributor writes is never longer than the active buckets together, and rows it
  does not write keep their length. Every row therefore stays within a bound \<open>K\<close>
  that the rows and the active buckets respect on entry.
\<close>

lemma length_nth_le_concat: "i < length xs \<Longrightarrow> length (xs ! i) \<le> length (concat xs)"
proof -
  assume "i < length xs"
  then have "size (mset (xs ! i)) \<le> size (mset (concat xs))"
    by (intro size_mset_mono mset_nth_le_concat)
  then show ?thesis by simp
qed

lemma two_rows_le_concat:
  assumes "c < n" "n < length xs"
  shows "length (xs ! c) + length (xs ! n) \<le> length (concat (take (Suc n) xs))"
proof -
  have t: "take (Suc n) xs = take n xs @ [xs ! n]" using assms by (simp add: take_Suc_conv_app_nth)
  have "length (take n xs ! c) \<le> length (concat (take n xs))"
    using assms by (intro length_nth_le_concat) simp
  then show ?thesis using assms by (simp add: t)
qed

lemma take_tail_rows:
  assumes "take_tail c k (sq, l) = Inr (sq', l')" "int (c + k) \<le> l" "l < int (length sq)"
    "\<forall>r \<in> set sq. length r \<le> K" "length (concat (take (nat (l + 1)) sq)) \<le> K"
  shows "\<forall>r \<in> set sq'. length r \<le> K"
  using assms
proof (induction k arbitrary: sq l)
  case 0
  then show ?case by simp
next
  case (Suc k)
  define n where "n = nat l"
  have l: "l = int n" "c < n" "Suc n \<le> length sq"
    using Suc.prems by (simp_all add: n_def)
  let ?sq = "sq[c := sq ! c @ sq ! n]"
  have step: "take_tail c (Suc k) (sq, l) = take_tail c k (?sq, l - 1)"
    using l by (simp add: arr_read_int)
  have nl: "nat (l + 1) = Suc n" using l by simp
  have new: "length (sq ! c @ sq ! n) \<le> K"
    using two_rows_le_concat [of c n sq] l Suc.prems(5) unfolding nl by simp
  have rows: "\<forall>r \<in> set ?sq. length r \<le> K"
    using Suc.prems(4) new by (auto dest: set_update_subset_insert [THEN subsetD])
  have "take n ?sq = butlast ((take (Suc n) sq)[c := take (Suc n) sq ! c @ last (take (Suc n) sq)])"
    by (rule take_fold_one [OF l(3) l(2)])
  then have "mset (concat (take n ?sq)) = mset (concat (take (Suc n) sq))"
    using fold_one_mset [of c "take (Suc n) sq"] l by simp
  then have "length (concat (take n ?sq)) = length (concat (take (Suc n) sq))"
    by (metis size_mset)
  then have act: "length (concat (take (nat (l - 1 + 1)) ?sq)) \<le> K"
    using Suc.prems(5) l unfolding nl by simp
  have "take_tail c k (?sq, l - 1) = Inr (sq', l')" using Suc.prems(1) step by simp
  moreover have "int (c + k) \<le> l - 1" "l - 1 < int (length ?sq)" using Suc.prems(2,3) by simp_all
  ultimately show ?case using Suc.IH rows act by blast
qed

lemma distribute_rows:
  assumes "distribute c n zs (sq, l) = Inr (sq', l')" "l < int (length sq)" "int (c + n * Suc zs) \<le> l + 1"
    "\<forall>r \<in> set sq. no_nul r" "\<forall>r \<in> set sq. length r \<le> K"
    "length (concat (take (nat (l + 1)) sq)) \<le> K"
  shows "\<forall>r \<in> set sq'. length r \<le> K"
  using assms
proof (induction n arbitrary: c sq l)
  case 0
  then show ?case by simp
next
  case (Suc n)
  have czs: "int (c + zs) \<le> l"
  proof -
    have "0 \<le> int n * int zs" by simp
    then show ?thesis using Suc.prems(3) by (simp del: of_nat_mult)
  qed
  obtain sq1 where t: "take_tail c zs (sq, l) = Inr (sq1, l - int zs)" "length sq1 = length sq"
      "\<forall>r \<in> set sq1. no_nul r"
      "take (nat (l + 1 - int zs)) sq1 = take_tail_list c zs (take (nat (l + 1)) sq)"
    using take_tail_refines [of l sq c zs] Suc.prems(2,4) czs by blast
  have r1: "\<forall>r \<in> set sq1. length r \<le> K"
    using take_tail_rows [OF t(1) czs Suc.prems(2,5,6)] .
  have "c + zs < length (take (nat (l + 1)) sq)" using czs Suc.prems(2) by simp
  then have "mset (concat (take (nat (l + 1 - int zs)) sq1)) = mset (concat (take (nat (l + 1)) sq))"
    using t(4) take_tail_list_mset by simp
  then have "length (concat (take (nat (l + 1 - int zs)) sq1)) = length (concat (take (nat (l + 1)) sq))"
    by (metis size_mset)
  then have a1: "length (concat (take (nat (l - int zs + 1)) sq1)) \<le> K"
    using Suc.prems(6) by (simp add: diff_add_eq)
  have d: "distribute (Suc c) n zs (sq1, l - int zs) = Inr (sq', l')"
    using Suc.prems(1) t(1) by simp
  have fit: "int (Suc c + n * Suc zs) \<le> l - int zs + 1" using Suc.prems(3) by simp
  show ?case using Suc.IH [OF d _ fit t(3) r1 a1] Suc.prems(2) t(2) czs by simp
qed

lemma euclid_rows:
  assumes "euclid hits beats x = Inr x'" "-1 \<le> s_lastElement x"
    "s_lastElement x < int (length (s_Sequence x))" "\<forall>r \<in> set (s_Sequence x). no_nul r"
    "\<forall>r \<in> set (s_Sequence x). length r \<le> K" "length (concat (active_buckets x)) \<le> K"
  shows "\<forall>r \<in> set (s_Sequence x'). length r \<le> K"
  using assms
proof (induction hits beats x arbitrary: x' rule: euclid.induct)
  case (1 hits beats x)
  let ?sq = "s_Sequence x" and ?l = "s_lastElement x"
  let ?bs = "active_buckets x"
  obtain r d where rd: "kind_counts ?bs = (r, d)" by fastforce
  have cnt: "count_loop ?sq ?l 0 (0, 0) = Inr (r, d)"
    using count_loop_kind_counts [OF "1.prems"(2,3)] rd by (simp add: active_buckets_def)
  have len: "length ?bs = nat (?l + 1)" using "1.prems" by (simp add: active_buckets_def)
  show ?case
  proof (cases "hits = 0")
    case True
    have "euclid hits beats x =
        Inr (x\<lparr>s_outputSequence := fold (\<lambda>s b. c_strcat b s) ?bs (s_outputSequence x)\<rparr>)"
      using True cnt concat_loop_result [OF "1.prems"(3), of 0]
      by (simp add: euclid.simps [of 0 beats x] active_buckets_def)
    then show ?thesis using "1.prems"(1,5) by auto
  next
    case False
    let ?zs = "zero_sets hits beats r d ?l"
    let ?n = "min r d"
    have f0: "?n * Suc ?zs \<le> nat (?l + 1)"
      using round_fits [OF rd, of hits beats ?l] len by simp
    have "int (?n * Suc ?zs) \<le> int (nat (?l + 1))"
      using f0 by (rule of_nat_mono)
    with "1.prems"(2) have fit: "int (0 + ?n * Suc ?zs) \<le> ?l + 1" by simp
    obtain sq1 where dist: "distribute 0 ?n ?zs (?sq, ?l) = Inr (sq1, ?l - int (?n * ?zs))"
        "length sq1 = length ?sq" "\<forall>r \<in> set sq1. no_nul r"
        "take (nat (?l + 1 - int (?n * ?zs))) sq1 = distribute_list 0 ?n ?zs ?bs"
      using distribute_refines [OF "1.prems"(3) fit "1.prems"(4)] by (auto simp: active_buckets_def)
    have rows1: "\<forall>r \<in> set sq1. length r \<le> K"
      using distribute_rows [OF dist(1) "1.prems"(3) fit "1.prems"(4,5)] "1.prems"(6)
      by (simp add: active_buckets_def)
    let ?l1 = "?l - int (?n * ?zs)"
    let ?x1 = "x\<lparr>s_Sequence := sq1, s_lastElement := ?l1\<rparr>"
    have mn: "(if d < r then d else r) = ?n" by auto
    have dist0: "distribute 0 (if d < r then d else r) ?zs (?sq, ?l) = Inr (sq1, ?l1)"
      using dist(1) mn by simp
    have e: "int (0 + ?n * Suc ?zs) = int (?n * ?zs) + int ?n" by simp
    have nz: "int (?n * ?zs) + int ?n \<le> ?l + 1" using fit e by linarith
    have pz: "0 \<le> int (?n * ?zs)" "0 \<le> int ?n" by simp_all
    have p1: "-1 \<le> ?l1" using nz pz by linarith
    have p3: "?l1 \<le> ?l" using pz(1) by linarith
    have p2: "?l1 < int (length sq1)" using p3 "1.prems"(3) dist(2) by linarith
    have a2: "nat (?l1 + 1) = nat (?l + 1 - int (?n * ?zs))"
      by (simp only: diff_add_eq)
    have a1': "active_buckets ?x1 = take (nat (?l1 + 1)) sq1"
      by (simp add: active_buckets_def)
    have act: "active_buckets ?x1 = distribute_list 0 ?n ?zs ?bs"
      by (simp only: a1' a2 dist(4))
    have "mset (concat (active_buckets ?x1)) = mset (concat ?bs)"
      using act distribute_list_mset [of 0 ?n ?zs ?bs] f0 len by simp
    then have a1: "length (concat (active_buckets ?x1)) \<le> K"
      using "1.prems"(6) by (metis size_mset)
    have step: "euclid hits beats x = euclid (beats smod hits) hits ?x1"
      using cnt dist(1) False mn by (simp add: euclid.simps [of hits beats x])
    show ?thesis
      using "1.IH" [OF cnt refl refl refl False dist0 refl, of x'] "1.prems"(1) step p1 p2 dist(3) rows1 a1
      by simp
  qed
qed
end
