(* ===== verification/Memory.thy ===== *)
theory Memory
  imports Events Row_Bounds
begin

text \<open>
  The byte buffers of the object. The model's strings are unbounded lists, so a
  write past \<open>char s_outputSequence[64]\<close> (line 45) or past a row of
  \<open>char s_Sequence[64][64]\<close> (line 47) is no fault of the model; \<open>bytes_ok\<close> states
  that every string, with its terminator, fits its 64-byte array. During a bang
  the output string is reset by \<open>strcpy\<close> and the rows it initializes are
  rewritten, and afterwards both only grow by \<open>strcat\<close>; so the lengths after the
  bang bound every write it made, and \<open>bytes_ok\<close> of the state after a message
  means that the message wrote no byte outside the arrays. \<open>mem_ok\<close> adds that
  the stored \<open>s_lastElement\<close> indexes a row the last bang initialized (or row 0
  while no beat count is set), which bounds what the next bare bang reads.
\<close>

definition bytes_ok :: "t_euclid \<Rightarrow> bool" where
  "bytes_ok x \<longleftrightarrow> c_strlen (s_outputSequence x) < 64 \<and> (\<forall>r \<in> set (s_Sequence x). length r < 64)"

definition mem_ok :: "t_euclid \<Rightarrow> bool" where
  "mem_ok x \<longleftrightarrow> bytes_ok x \<and> s_lastElement x < max 1 (s_beats x)"

lemma mem_ok_new: "0 \<le> l \<Longrightarrow> l < max 1 b \<Longrightarrow> mem_ok ((euclid_new n)\<lparr>s_beats := b, s_lastElement := l\<rparr>)"
  by (simp add: mem_ok_def bytes_ok_def euclid_new_def c_strlen_def c_strcpy_def NUL_def)

lemma c_strlen_strcpy_le: "c_strlen (c_strcpy b s) \<le> length s"
  by (auto simp: c_strlen_def c_strcpy_def takeWhile_append NUL_def length_takeWhile_le)

lemma length_concat_take_le: "length (concat (take k xs)) \<le> length (concat xs)"
  by (metis append_take_drop_id concat_append length_append le_add1)

lemma initial_buckets_concat_length: "0 \<le> b \<Longrightarrow> length (concat (initial_buckets h b)) = nat b"
  by (simp add: initial_buckets_def length_concat sum_list_replicate)

text \<open>The buckets a bang distributes hold fewer than 64 characters when the beat
  count is below 64.\<close>

lemma active_short:
  assumes "-1 \<le> l" "l < max 1 b" "0 \<le> b" "b < 64" "\<forall>r \<in> set rows. length r < 64"
  shows "length (concat (take (nat (l + 1)) (initial_buckets h b @ drop (nat b) rows))) < 64"
proof (cases "l < b")
  case True
  have li: "length (initial_buckets h b) = nat b" using assms(3) by (rule initial_buckets_length)
  have "nat (l + 1) \<le> length (initial_buckets h b)" using True li by simp
  then have eq: "take (nat (l + 1)) (initial_buckets h b @ drop (nat b) rows) = take (nat (l + 1)) (initial_buckets h b)"
    by simp
  have "length (concat (take (nat (l + 1)) (initial_buckets h b))) \<le> nat b"
    using length_concat_take_le [of "nat (l + 1)" "initial_buckets h b"]
      initial_buckets_concat_length [OF assms(3)] by simp
  then show ?thesis unfolding eq using assms(4) by simp
next
  case False
  then have "b = 0" "l = 0" using assms(1,2,3) by auto
  then have "take (nat (l + 1)) (initial_buckets h b @ drop (nat b) rows) = take 1 rows"
    by (simp add: initial_buckets_def)
  then show ?thesis using assms(5) by (cases rows) auto
qed

text \<open>A bang from a state in range whose strings fit, with fewer than 64 beats,
  leaves them fitting.\<close>

lemma bang_mem:
  assumes "obj_ranges y" "mem_ok y" "euclid_bang y = Inr (y', out)" "s_beats y < 64"
  shows "mem_ok y'"
proof -
  have r: "arrays_ok y" "0 \<le> s_beats y" "s_beats y \<le> 64" "0 \<le> s_thisOffset y"
    "-1 \<le> s_lastElement y" "s_lastElement y < 64" "fits_int (s_hits y)" "fits_int (s_thisOffset y)"
    using assms(1) by (simp_all add: obj_ranges_def)
  have bo: "c_strlen (s_outputSequence y) < 64" "\<forall>r \<in> set (s_Sequence y). length r < 64"
    "s_lastElement y < max 1 (s_beats y)"
    using assms(2) by (simp_all add: mem_ok_def bytes_ok_def)
  let ?A = "take (nat (s_lastElement y + 1))
      (initial_buckets (s_hits y) (s_beats y) @ drop (nat (s_beats y)) (s_Sequence y))"
  have hA: "length (concat ?A) < 64"
    using active_short [OF r(5) bo(3) r(2) assms(4) bo(2)] .
  have nf: "\<not> (s_beats y = 0 \<and> 0 < s_thisOffset y)"
  proof
    assume "s_beats y = 0 \<and> 0 < s_thisOffset y"
    then have "euclid_bang y = Inl Division_by_zero" using bang_general [OF r] by simp
    then show False using assms(3) by simp
  qed
  have gen: "\<exists>x'. euclid_bang y = Inr (x', bang_output y) \<and>
      s_hits x' = s_hits y \<and> s_beats x' = s_beats y \<and> s_thisOffset x' = s_thisOffset y \<and>
      s_pingPongFlag x' = s_pingPongFlag y \<and> arrays_ok x' \<and>
      s_outputSequence x' = c_strcpy (s_outputSequence y) (concat (bang_buckets y)) \<and>
      s_lastElement x' = int (length (bang_buckets y)) - 1 \<and> s_lastElement x' \<le> s_lastElement y \<and>
      take (nat (s_lastElement x' + 1)) (s_Sequence x') = bang_buckets y \<and>
      (\<exists>x1 x2. s_Sequence x1 = initial_buckets (s_hits y) (s_beats y) @ drop (nat (s_beats y)) (s_Sequence y) \<and>
         s_lastElement x1 = s_lastElement y \<and> euclid (s_hits y) (s_beats y) x1 = Inr x2 \<and>
         s_Sequence x' = s_Sequence x2)"
    using bang_general [OF r] unfolding if_not_P [OF nf] .
  then obtain x' where h: "euclid_bang y = Inr (x', bang_output y) \<and>
      s_hits x' = s_hits y \<and> s_beats x' = s_beats y \<and> s_thisOffset x' = s_thisOffset y \<and>
      s_pingPongFlag x' = s_pingPongFlag y \<and> arrays_ok x' \<and>
      s_outputSequence x' = c_strcpy (s_outputSequence y) (concat (bang_buckets y)) \<and>
      s_lastElement x' = int (length (bang_buckets y)) - 1 \<and> s_lastElement x' \<le> s_lastElement y \<and>
      take (nat (s_lastElement x' + 1)) (s_Sequence x') = bang_buckets y \<and>
      (\<exists>x1 x2. s_Sequence x1 = initial_buckets (s_hits y) (s_beats y) @ drop (nat (s_beats y)) (s_Sequence y) \<and>
         s_lastElement x1 = s_lastElement y \<and> euclid (s_hits y) (s_beats y) x1 = Inr x2 \<and>
         s_Sequence x' = s_Sequence x2)" ..
  have xy: "x' = y'" using h assms(3) by simp
  have e: "s_beats y' = s_beats y"
      "s_outputSequence y' = c_strcpy (s_outputSequence y) (concat (bang_buckets y))"
      "s_lastElement y' \<le> s_lastElement y"
    using h unfolding xy by simp_all
  obtain x1 x2 where x1: "s_Sequence x1 = initial_buckets (s_hits y) (s_beats y) @ drop (nat (s_beats y)) (s_Sequence y)"
      "s_lastElement x1 = s_lastElement y" "euclid (s_hits y) (s_beats y) x1 = Inr x2"
      "s_Sequence y' = s_Sequence x2"
    using h unfolding xy by blast
  have "mset (concat (bang_buckets y)) = mset (concat ?A)"
    by (simp add: bang_buckets_def euclid_list_conserves)
  then have "length (concat (bang_buckets y)) = length (concat ?A)" by (metis size_mset)
  then have out: "c_strlen (s_outputSequence y') < 64"
    using e(2) hA c_strlen_strcpy_le [of "s_outputSequence y" "concat (bang_buckets y)"] by simp
  have lens: "length (s_Sequence y) = 64" "\<forall>r \<in> set (s_Sequence y). no_nul r"
    using r(1) by (simp_all add: arrays_ok_def)
  have l1: "length (s_Sequence x1) = 64" using x1(1) lens(1) r(2,3) initial_buckets_length [OF r(2)] by simp
  have nn: "\<forall>r \<in> set (s_Sequence x1). no_nul r"
    using x1(1) lens(2) initial_buckets_no_nul by (auto dest: in_set_dropD)
  have short: "\<forall>r \<in> set (s_Sequence x1). length r \<le> 63"
  proof -
    have "\<forall>r \<in> set (initial_buckets (s_hits y) (s_beats y)). length r \<le> 63"
      by (auto simp: initial_buckets_def)
    moreover have "\<forall>r \<in> set (drop (nat (s_beats y)) (s_Sequence y)). length r \<le> 63"
      using bo(2) by (fastforce dest: in_set_dropD)
    ultimately show ?thesis using x1(1) by auto
  qed
  have act: "length (concat (active_buckets x1)) \<le> 63"
    using hA x1(1,2) by (simp add: active_buckets_def)
  have p: "-1 \<le> s_lastElement x1" "s_lastElement x1 < int (length (s_Sequence x1))"
    using x1(2) r(5,6) l1 by simp_all
  have "\<forall>r \<in> set (s_Sequence x2). length r \<le> 63"
    using euclid_rows [OF x1(3) p nn short act] .
  then have "\<forall>r \<in> set (s_Sequence y'). length r < 64" using x1(4) by auto
  then show ?thesis using out e(1,3) bo(3) by (auto simp: mem_ok_def bytes_ok_def)
qed

lemma message_mem:
  assumes "obj_inv x" "mem_ok x" "euclid_message x m = Inr (x', outs)" "s_beats x' < 64"
  shows "mem_ok x'"
proof -
  consider (pp) v where "m = Msg_pingpong v" "x' = x\<lparr>s_pingPongFlag := v\<rparr>"
    | (bang) y out where "obj_ranges y" "euclid_bang y = Inr (x', out)" "s_Sequence y = s_Sequence x"
        "s_outputSequence y = s_outputSequence x" "y = x \<or> s_lastElement y = s_beats y - 1"
    using message_bang_form [OF assms(1,3)] by blast
  then show ?thesis
  proof cases
    case pp
    then show ?thesis using assms(2) by (simp add: mem_ok_def bytes_ok_def)
  next
    case bang
    have b: "s_beats y = s_beats x'" using bang_ranges_output [OF bang(1,2)] by simp
    have "0 \<le> s_beats y" using bang(1) by (simp add: obj_ranges_def)
    then have "mem_ok y" using bang(3,4,5) assms(2) by (auto simp: mem_ok_def bytes_ok_def)
    then show ?thesis using bang_mem [OF bang(1) _ bang(2)] assms(4) b by simp
  qed
qed

lemma message_beats_next:
  assumes "obj_inv x" "euclid_message x m = Inr (x', outs)"
  shows "s_beats x' = (case m of Msg_in1 v \<Rightarrow> if v > 64 then 64 else if v > 0 then v else 1
                               | _ \<Rightarrow> s_beats x)"
proof -
  consider (pp) v where "m = Msg_pingpong v" "x' = x\<lparr>s_pingPongFlag := v\<rparr>"
    | (bang) y out where "obj_ranges y" "euclid_bang y = Inr (x', out)"
        "s_beats y = (case m of Msg_in1 v \<Rightarrow> if v > 64 then 64 else if v > 0 then v else 1
                               | _ \<Rightarrow> s_beats x)"
    using message_bang_form [OF assms] by blast
  then show ?thesis
  proof cases
    case pp
    then show ?thesis by simp
  next
    case bang
    then show ?thesis using bang_ranges_output [OF bang(1,2)] by simp
  qed
qed

text \<open>C4: Memory safety of one message: from an invariant state whose strings fit
  their arrays and with a beat count set, no message faults (no array index out
  of bounds, no division by zero), and when the beat count after it is below 64,
  every string it wrote fits its 64-byte array.\<close>

theorem euclid_message_no_fault:
  assumes "obj_inv x" "mem_ok x" "1 \<le> s_beats x"
  shows "\<exists>x' out. euclid_message x m = Inr (x', out) \<and> (s_beats x' < 64 \<longrightarrow> mem_ok x')"
proof -
  obtain x' out where e: "euclid_message x m = Inr (x', out)"
    using message_step [OF assms(1), of m] assms(3) by (cases "euclid_message x m") auto
  then show ?thesis using message_mem [OF assms(1,2) e] by blast
qed

text \<open>C5: Error behaviour of one message from an invariant state whose strings fit:
  a message faults exactly when it is a positive offset sent while the beat count is
  0, and the fault is the rotator's division by zero; a message that completes
  overruns a 64-byte array only when it leaves 64 beats; and it emits an empty
  \<open>sequence\<close> (the zero-length \<open>argv\<close>) exactly when it leaves 0 beats.\<close>

theorem euclid_message_fault_cases:
  assumes "obj_inv x" "mem_ok x"
  shows "((\<exists>e. euclid_message x m = Inl e) \<longleftrightarrow> s_beats x = 0 \<and> (\<exists>v. m = Msg_in2 v \<and> 0 < v)) \<and>
    (\<forall>e. euclid_message x m = Inl e \<longrightarrow> e = Division_by_zero) \<and>
    (\<forall>x' outs. euclid_message x m = Inr (x', outs) \<longrightarrow>
       (mem_ok x' \<or> s_beats x' = 64) \<and> (\<forall>out \<in> set outs. out = [] \<longleftrightarrow> s_beats x' = 0))"
proof -
  have st: "case euclid_message x m of
      Inr (x', out) \<Rightarrow> obj_inv x'
    | Inl e \<Rightarrow> e = Division_by_zero \<and> s_beats x = 0 \<and> (\<exists>v. m = Msg_in2 v \<and> 0 < v)"
    using message_step [OF assms(1)] .
  have bx: "0 \<le> s_beats x" "s_beats x \<le> 64" using obj_inv_beats [OF assms(1)] by simp_all
  have flt: "\<exists>e. euclid_message x m = Inl e" if "s_beats x = 0" "m = Msg_in2 v" "0 < v" for v
  proof -
    let ?y = "x\<lparr>s_lastElement := s_beats x - 1, s_thisOffset := (if v < 0 then 0 else min v 128)\<rparr>"
    have "obj_ranges ?y" using assms(1) by (auto simp: obj_inv_def obj_ranges_def arrays_ok_def)
    then have "euclid_bang ?y = Inl Division_by_zero" using bang_total [of ?y] that by simp
    then show ?thesis using that bx by (simp add: euclid_in2_bang fbind_def)
  qed
  have inr: "(mem_ok x' \<or> s_beats x' = 64) \<and> (\<forall>out \<in> set outs. out = [] \<longleftrightarrow> s_beats x' = 0)"
    if e: "euclid_message x m = Inr (x', outs)" for x' outs
  proof -
    have i: "obj_inv x'" using st e by simp
    have b': "0 \<le> s_beats x'" "s_beats x' \<le> 64" using obj_inv_beats [OF i] by simp_all
    have "mem_ok x' \<or> s_beats x' = 64" using message_mem [OF assms e] b' by linarith
    moreover have "\<forall>out \<in> set outs. out = [] \<longleftrightarrow> s_beats x' = 0"
      using message_events_shape [OF assms(1) e] b' by (auto simp flip: length_0_conv)
    ultimately show ?thesis ..
  qed
  show ?thesis using st flt inr by (auto split: sum.splits)
qed

text \<open>C21: Liveness and memory safety over runs: from an invariant state whose strings
  fit, with a beat count between 1 and 63, every sequence of messages that sets no
  beat count of 64 or more runs to completion without fault, keeps the invariant and
  the strings within their arrays, and emits exactly one \<open>sequence\<close> event per
  message other than the \<open>pingpong\<close> attribute.\<close>

theorem euclid_run_live:
  assumes "obj_inv x" "mem_ok x" "1 \<le> s_beats x" "s_beats x < 64" "\<forall>v. Msg_in1 v \<in> set ms \<longrightarrow> v < 64"
  shows "\<exists>x' outs. euclid_run x ms = Inr (x', outs) \<and> obj_inv x' \<and> mem_ok x' \<and>
    length outs = length (filter emits ms)"
  using assms
proof (induction ms arbitrary: x)
  case Nil
  then show ?case by simp
next
  case (Cons m ms)
  obtain x1 o1 where m1: "euclid_message x m = Inr (x1, o1)"
    using message_step [OF Cons.prems(1), of m] Cons.prems(3)
    by (cases "euclid_message x m") auto
  have i1: "obj_inv x1" using message_step [OF Cons.prems(1), of m] m1 by simp
  have b1: "1 \<le> s_beats x1" "length o1 = (if emits m then 1 else 0)"
    using message_beats [OF Cons.prems(1,3) m1] by simp_all
  have c1: "s_beats x1 < 64"
    using message_beats_next [OF Cons.prems(1) m1] Cons.prems(4,5) by (cases m) auto
  have mm1: "mem_ok x1" using message_mem [OF Cons.prems(1,2) m1 c1] .
  obtain x' outs where r: "euclid_run x1 ms = Inr (x', outs)" "obj_inv x'" "mem_ok x'"
    "length outs = length (filter emits ms)"
    using Cons.IH [OF i1 mm1 b1(1) c1] Cons.prems(5) by auto
  show ?case using m1 r b1(2) by simp
qed

end
