(* ===== verification/Spec2Isabelle.thy ===== *)
theory Spec2Isabelle
  imports Host Laws Memory
begin

text \<open>
  \<^bold>\<open>A verification development of mattbot.euclid.\<close>

  The program is one C file, \<^verbatim>\<open>src/mattbot.euclid/euclid.c\<close>, a Max external
  object that outputs Euclidean rhythms: \<open>hits\<close> onsets spread over \<open>beats\<close>
  steps, rotated by an offset and optionally mirrored (ping-pong). The object
  state is the struct \<open>t_euclid\<close>; its handlers are \<open>euclid_bang\<close>, the inlets
  \<open>euclid_int\<close>, \<open>euclid_in1\<close>, \<open>euclid_in2\<close> and the \<open>pingpong\<close> attribute.
  A bang runs five stages in order: \<open>euclid_prepare_sequence\<close> (buckets),
  \<open>euclid\<close> (the recursive distributor), \<open>euclid_sequence_string_to_int\<close>,
  \<open>euclid_thisOffset\<close> (rotation), \<open>euclid_ping_pong\<close> (mirror), then emits the
  integers as one \<open>sequence\<close> message.

  \<^bold>\<open>Theories and correspondence.\<close>
  \<^item> \<open>Prelude\<close>: C values as \<open>int\<close> (\<open>long\<close>, \<open>int\<close>), faults as the sum type
    \<open>fault + 'a\<close> with bind \<open>fbind\<close>; bounds-checked array access \<open>arr_read\<close>,
    \<open>arr_write\<close> (an out-of-range index is the fault \<open>Index_out_of_bounds\<close>);
    NUL-terminated byte buffers with \<open>c_strcpy\<close>, \<open>c_strcat\<close>, \<open>c_strlen\<close>,
    \<open>c_byte\<close>; the implicit conversion of a \<open>long\<close> argument to an \<open>int\<close>
    parameter (\<open>euclid(x, x->s_hits, x->s_beats)\<close>, \<open>euclid_thisOffset\<close>, the
    \<open>int s_lastElement\<close> field) as \<open>c_int_of_long\<close>, the signed 32-bit
    truncation of \<open>HOL-Library.Word\<close>, which is the identity on \<open>fits_int\<close> values.
  \<^item> \<open>Loops\<close>: the counting loop combinator \<open>for_loop\<close> with its fill and
    collect lemmas, used for every \<open>for\<close> loop that walks an array.
  \<^item> \<open>Euclid_Object\<close>: the record \<open>t_euclid\<close> (struct, lines 39--50) and
    \<open>euclid_new\<close> (lines 99--119); \<open>arrays_ok\<close> states the declared lengths.
  \<^item> \<open>Bucket_Init\<close>: \<open>euclid_prepare_sequence\<close> with its loop \<open>prepare_loop\<close>
    (lines 218--230) and its contract \<open>initial_buckets\<close>.
  \<^item> \<open>Distributor\<close>: \<open>euclid\<close> (lines 234--303) with its loops \<open>count_loop\<close>,
    \<open>take_tail\<close>, \<open>distribute\<close>, \<open>concat_loop\<close> and the \<open>zeroSets\<close> rule
    \<open>zero_sets\<close>; the recursion terminates by the measure \<open>|hits|\<close>
    (C's \<open>%\<close> is \<open>smod\<close>), and \<open>euclid_rounds\<close>, the chain of recursive
    calls, is logarithmic in the hits (Lame's bound, \<open>euclid_rounds_log\<close>).
  \<^item> \<open>Euclid_List\<close>: the distributor on an immutable list of buckets
    (\<open>euclid_list\<close>, the redesign of spec section 9), with conservation of
    the beats (\<open>mset\<close> of the concatenation).
  \<^item> \<open>Distributor_Refinement\<close>: \<open>euclid\<close> refines \<open>euclid_list\<close> under the
    abstraction \<open>active_buckets\<close> (the first \<open>s_lastElement + 1\<close> rows), and
    never faults on an array index when \<open>-1 \<le> s_lastElement < 64\<close> (the
    64-byte bound of its strings is the subject of \<open>Memory\<close>).
  \<^item> \<open>Sequence_Output\<close>, \<open>Rotator\<close>, \<open>Mirror\<close>: lines 307--316, 320--355,
    359--368; the rotator is a right rotation (\<open>rotate_right\<close>, and HOL's
    \<open>rotate\<close>), the mirror appends the reversed prefix.
  \<^item> \<open>Inlets\<close>: \<open>euclid_bang\<close>, \<open>euclid_int\<close>, \<open>euclid_in1\<close>, \<open>euclid_in2\<close>
    (lines 145--214), the message table of \<open>main\<close> as \<open>euclid_message\<close>,
    runs \<open>euclid_run\<close> and the inductive set of \<open>reachable\<close> states.
  \<^item> \<open>Pipeline\<close>: the whole bang on every state with in-range parameters
    (\<open>bang_general\<close>: the output is \<open>bang_output\<close>, computed from the buckets
    left by the stored \<open>s_lastElement\<close> and the bytes of the output buffer,
    stale ones included; a positive offset with no beats is the only fault);
    on a prepared state this is the spec's \<open>generate\<close> (\<open>euclid_pattern\<close>
    rotated by \<open>working\<close>, mirrored when the flag is 1); the inlets' contracts.
  \<^item> \<open>Safety\<close>: the object invariant \<open>obj_inv\<close>, kept by every message
    (rule induction over \<open>reachable\<close>), and the one-step lemmas on faults.
  \<^item> \<open>Events\<close>: every message from an invariant state is one bang from a state
    derived from it, or the attribute setter (\<open>message_bang_form\<close>); its events
    are typed (0/1 lists of length beats or \<open>2 * beats\<close>).
  \<^item> \<open>Row_Bounds\<close>, \<open>Memory\<close>: the 64-byte arrays the model leaves unbounded.
    \<open>bytes_ok\<close> says every string and its terminator fit their arrays; the
    distributor never writes a row longer than the active buckets together
    (\<open>euclid_rows\<close>), so a bang with fewer than 64 beats keeps \<open>bytes_ok\<close>.
    On this: no message faults or overruns once beats is set below 64, the
    exact error behaviour of a message (a division by zero exactly for a
    positive offset at 0 beats, an overrun only at 64 beats, an empty event
    exactly at 0 beats), and liveness of runs that keep beats below 64.
  \<^item> \<open>Laws\<close>: laws for all parameter values: an inlet message repeated emits
    the same event (each inlet resets \<open>s_lastElement\<close>, a bare bang does not),
    the offset inlet is periodic in the beat count (\<open>generate_period\<close>), and
    one hit over \<open>b\<close> beats gives a hit then rests, gathered by the distributor
    in bucket row 0 (\<open>euclid_list_one_hit\<close>), \<open>b\<close> characters that at 64 beats
    overflow the 64-byte row.
  \<^item> \<open>Host\<close>: \<open>main\<close> (lines 74--95) with the global \<open>euclid_class\<close> it sets
    (record \<open>t_globals\<close>, line 70) and its return value 0; the class it builds
    (lines 76--89) as \<open>euclid_main\<close>, a record of method and attribute tables
    filled by \<open>class_addmethod\<close> and \<open>class_attr_long\<close>, and the host's delivery
    \<open>class_message\<close>; \<open>euclid_assist\<close>'s help strings.
  \<^item> This theory: the spec's regression fixtures and the divergences they show
    (E(3,8) and the offset fixture, hits not re-clamped, the stale-state bang),
    and the witnesses of the component theorems. Runs of several messages are
    proved through \<open>bang_via_frame\<close>, which evaluates a bang on a small record
    agreeing with the state on everything the output depends on.

  \<^bold>\<open>Bounds.\<close> Beats are at most 64 by the inlet clamp, so all arrays
  (64 rows, 128 integers) are modelled at their C lengths; the witnesses use
  small beat counts (4 to 16) so that \<open>code_simp\<close> evaluates them quickly.
  Loops are \<open>function\<close>s with measures; no fuel is needed. All stored
  parameters stay in \<open>[-64, 128]\<close> (\<open>obj_inv\<close>), so the \<open>long\<close> to \<open>int\<close>
  narrowing never changes a value on a reachable state; the contracts that
  start from an arbitrary state ask for \<open>fits_int\<close> of the unclamped fields.
  The byte buffers are unbounded lists in the model and their 64-byte bound is
  the predicate \<open>bytes_ok\<close>: strings are reset at the start of a bang and only
  grow after it, so their lengths after a message bound every write it made.

  \<^bold>\<open>Not modelled.\<close> The Max SDK is not part of the repository:
  \<open>class_new\<close>, \<open>class_addmethod\<close> and \<open>CLASS_ATTR_LONG\<close> are modelled only by
  their effect on the class's tables, \<open>class_register\<close> only publishes the
  class, and \<open>object_alloc\<close>, \<open>intin\<close> and \<open>outlet_new\<close> have no effect on the
  object's fields; \<open>outlet_anything\<close> is modelled as the list of emitted
  argument lists; the SDK constants \<open>ASSIST_INLET\<close>, \<open>ASSIST_OUTLET\<close> take
  their header values. A write past a 64-byte array is not a fault of the model
  (it would corrupt the neighbouring field or row in C): it is visible as a
  failure of \<open>bytes_ok\<close>, which happens only at 64 beats; the zero-length
  \<open>argv\<close> of a bang with no beats is the empty list.
\<close>

section \<open>The spec's fixtures\<close>

text \<open>C16: Canonical fixture: with 8 beats, \<open>euclid_int\<close> with 3 hits emits
  \<open>[1,0,0,1,0,1,0,0]\<close>, not the \<open>[1,0,0,1,0,0,1,0]\<close> of spec section 8 (a rotation of it).\<close>

theorem fixture_E38:
  "\<exists>x'. euclid_int ((euclid_new 0)\<lparr>s_beats := 8\<rparr>) 3 = Inr (x', [1, 0, 0, 1, 0, 1, 0, 0])"
proof -
  let ?y = "(euclid_new 0)\<lparr>s_beats := 8, s_hits := 3, s_lastElement := 7\<rparr>"
  have u: "euclid_int ((euclid_new 0)\<lparr>s_beats := 8\<rparr>) 3 = euclid_bang ?y"
    by (simp add: euclid_int_unfold euclid_new_def)
  have r: "bang_ready ?y" by (simp add: bang_ready_def arrays_ok_def euclid_new_def)
  have g: "generate 3 8 0 False = [1, 0, 0, 1, 0, 1, 0, 0]" by code_simp
  show ?thesis using bang_result [OF r] u g by (auto simp: euclid_new_def)
qed

text \<open>C17: Offset fixture: with 3 hits over 8 beats, \<open>euclid_in2\<close> with offset 3 emits
  \<open>[1,0,0,1,0,0,1,0]\<close>, the code's pattern rotated right by 3; the spec expects
  \<open>[1,0,0,1,0,0,1,0]\<close> rotated by 3, which is \<open>[0,1,0,1,0,0,1,0]\<close>.\<close>

theorem fixture_offset:
  "(\<exists>x'. euclid_in2 ((euclid_new 0)\<lparr>s_hits := 3, s_beats := 8\<rparr>) 3 = Inr (x', [1, 0, 0, 1, 0, 0, 1, 0])) \<and>
   rotate_right 3 [1, 0, 0, 1, 0, 0, 1, (0::c_long)] = [0, 1, 0, 1, 0, 0, 1, 0]"
proof -
  let ?y = "(euclid_new 0)\<lparr>s_hits := 3, s_beats := 8, s_lastElement := 7, s_thisOffset := 3\<rparr>"
  have u: "euclid_in2 ((euclid_new 0)\<lparr>s_hits := 3, s_beats := 8\<rparr>) 3 = euclid_bang ?y"
    by (simp add: euclid_in2_unfold euclid_new_def)
  have r: "bang_ready ?y" by (simp add: bang_ready_def arrays_ok_def euclid_new_def)
  have g: "generate 3 8 3 False = [1, 0, 0, 1, 0, 0, 1, 0]" by code_simp
  have s: "rotate_right 3 [1, 0, 0, 1, 0, 0, 1, (0::c_long)] = [0, 1, 0, 1, 0, 0, 1, 0]"
    by (simp add: rotate_right_def)
  show ?thesis using bang_result [OF r] u g s by (auto simp: euclid_new_def)
qed

text \<open>C18: Hits are not re-clamped when the beats shrink: from 8 hits over 8 beats,
  \<open>euclid_in1\<close> with 4 beats keeps \<open>s_hits = 8 > s_beats = 4\<close>, outside the spec's
  precondition \<open>hits \<le> beats\<close>; the output is still all ones.\<close>

theorem fixture_hits_not_reclamped:
  "\<exists>x'. euclid_in1 ((euclid_new 0)\<lparr>s_hits := 8, s_beats := 8\<rparr>) 4 = Inr (x', [1, 1, 1, 1]) \<and>
     s_hits x' = 8 \<and> s_beats x' = 4"
proof -
  let ?y = "(euclid_new 0)\<lparr>s_hits := 8, s_beats := 4, s_lastElement := 3\<rparr>"
  have u: "euclid_in1 ((euclid_new 0)\<lparr>s_hits := 8, s_beats := 8\<rparr>) 4 = euclid_bang ?y"
    by (simp add: euclid_in1_unfold euclid_new_def)
  have r: "bang_ready ?y" by (simp add: bang_ready_def arrays_ok_def euclid_new_def)
  have g: "generate 8 4 0 False = [1, 1, 1, 1]" by code_simp
  show ?thesis using bang_result [OF r] u g by (auto simp: euclid_new_def)
qed

text \<open>C19: A bare bang does not reset \<open>s_lastElement\<close>: after \<open>in1 8\<close> and \<open>int 3\<close>
  emit \<open>[1,0,0,1,0,1,0,0]\<close>, a bang with the same parameters distributes only the
  two surviving buckets and reads stale bytes past the shorter string, emitting
  \<open>[1,1,0,1,0,1,0,0]\<close>, with four hits instead of three.\<close>

theorem fixture_stale_bang:
  "\<exists>x'. euclid_run (euclid_new 0) [Msg_in1 8, Msg_int 3, Msg_bang] =
     Inr (x', [[0, 0, 0, 0, 0, 0, 0, 0], [1, 0, 0, 1, 0, 1, 0, 0], [1, 1, 0, 1, 0, 1, 0, 0]])"
proof -
  define B0 where "B0 = c_strcpy (replicate 64 NUL) ''0''"
  define B1 where "B1 = c_strcpy B0 ''00000000''"
  define B2 where "B2 = c_strcpy B1 ''10010100''"
  define c1 where "c1 = \<lparr>s_beats = 8, s_hits = 0, s_thisOffset = 0, s_outputSequence = B0,
    s_outputIntSequence = [], s_Sequence = [], s_lastElement = 7, s_pingPongFlag = 0\<rparr>"
  define c2 where "c2 = c1\<lparr>s_hits := 3, s_outputSequence := B1\<rparr>"
  define c3 where "c3 = c2\<lparr>s_outputSequence := B2, s_lastElement := 1\<rparr>"
  have e1: "bang_output c1 = [0, 0, 0, 0, 0, 0, 0, 0]" "concat (bang_buckets c1) = ''00000000''"
    "length (bang_buckets c1) = 8"
    by (simp_all add: c1_def B0_def) code_simp+
  have e2: "bang_output c2 = [1, 0, 0, 1, 0, 1, 0, 0]" "concat (bang_buckets c2) = ''10010100''"
    "length (bang_buckets c2) = 2"
    by (simp_all add: c2_def c1_def B1_def B0_def) code_simp+
  have e3: "bang_output c3 = [1, 1, 0, 1, 0, 1, 0, 0]"
    by (simp add: c3_def c2_def c1_def B2_def B1_def B0_def) code_simp
  let ?y1 = "(euclid_new 0)\<lparr>s_beats := 8, s_lastElement := 7\<rparr>"
  have u1: "euclid_in1 (euclid_new 0) 8 = euclid_bang ?y1" by (simp add: euclid_in1_unfold)
  obtain x1 where b1: "euclid_bang ?y1 = Inr (x1, bang_output c1)" and f1: "s_hits x1 = 0"
    "s_beats x1 = 8" "s_thisOffset x1 = 0" "s_pingPongFlag x1 = 0" "arrays_ok x1"
    "s_outputSequence x1 = B1" "s_lastElement x1 = 7"
    using bang_via_frame [of ?y1 c1] e1
    by (auto simp: arrays_ok_def euclid_new_def c1_def B0_def B1_def)
  let ?y2 = "x1\<lparr>s_hits := 3, s_lastElement := 7\<rparr>"
  have u2: "euclid_int x1 3 = euclid_bang ?y2" using f1 by (simp add: euclid_int_unfold)
  have r2: "?y2\<lparr>s_Sequence := [], s_outputIntSequence := []\<rparr> = c2"
    using f1 by (simp add: c2_def c1_def)
  obtain x2 where b2: "euclid_bang ?y2 = Inr (x2, bang_output c2)" and f2: "s_hits x2 = 3"
    "s_beats x2 = 8" "s_thisOffset x2 = 0" "s_pingPongFlag x2 = 0" "arrays_ok x2"
    "s_outputSequence x2 = B2" "s_lastElement x2 = 1"
    using bang_via_frame [of ?y2 c2] r2 e2 f1 by (auto simp: c2_def c1_def B2_def arrays_ok_def)
  have r3: "x2\<lparr>s_Sequence := [], s_outputIntSequence := []\<rparr> = c3"
    using f2 by (simp add: c3_def c2_def c1_def)
  obtain x3 where b3: "euclid_bang x2 = Inr (x3, bang_output c3)"
    using bang_via_frame [of x2 c3] r3 f2 by auto
  show ?thesis using u1 b1 u2 b2 b3 e1 e2 e3 by simp
qed

section \<open>Witnesses of the component theorems\<close>

theorem euclid_message_bang_witness:
  "bang_ready ((euclid_new 0)\<lparr>s_hits := 3, s_beats := 8, s_lastElement := 7\<rparr>) \<and>
   (\<exists>x'. euclid_message ((euclid_new 0)\<lparr>s_hits := 3, s_beats := 8, s_lastElement := 7\<rparr>) Msg_bang
      = Inr (x', [[1, 0, 0, 1, 0, 1, 0, 0]]) \<and> s_hits x' = 3 \<and> s_beats x' = 8)"
proof -
  let ?x = "(euclid_new 0)\<lparr>s_hits := 3, s_beats := 8, s_lastElement := 7\<rparr>"
  have r: "bang_ready ?x" by (simp add: bang_ready_def arrays_ok_def euclid_new_def)
  have g: "generate 3 8 0 False = [1, 0, 0, 1, 0, 1, 0, 0]" by code_simp
  show ?thesis using Pipeline.euclid_message_bang [OF r] r g by (simp add: euclid_new_def) blast
qed

theorem euclid_pattern_conservation_witness:
  "count (mset (euclid_pattern 3 8)) 1 = 3 \<and> count (mset (euclid_pattern 3 8)) 0 = 5"
  using Pipeline.euclid_pattern_conservation [of 3 8] by simp

theorem euclid_int_output_witness:
  "arrays_ok ((euclid_new 0)\<lparr>s_beats := 8\<rparr>) \<and>
   (\<exists>x'. euclid_int ((euclid_new 0)\<lparr>s_beats := 8\<rparr>) 5 = Inr (x', [1, 0, 1, 1, 0, 1, 0, 1]))"
proof -
  have a: "arrays_ok ((euclid_new 0)\<lparr>s_beats := 8\<rparr>)" by (simp add: arrays_ok_def euclid_new_def)
  have g: "generate 5 8 0 False = [1, 0, 1, 1, 0, 1, 0, 1]" by code_simp
  show ?thesis using Pipeline.euclid_int_output [OF a, of 5] a g by (simp add: euclid_new_def)
qed

theorem euclid_in1_output_witness:
  "arrays_ok ((euclid_new 0)\<lparr>s_hits := 3\<rparr>) \<and>
   (\<exists>x'. euclid_in1 ((euclid_new 0)\<lparr>s_hits := 3\<rparr>) 5 = Inr (x', [1, 0, 1, 1, 0]))"
proof -
  have a: "arrays_ok ((euclid_new 0)\<lparr>s_hits := 3\<rparr>)" by (simp add: arrays_ok_def euclid_new_def)
  have g: "generate 3 5 0 False = [1, 0, 1, 1, 0]" by code_simp
  show ?thesis using Pipeline.euclid_in1_output [OF a, of 5] a g by (simp add: euclid_new_def)
qed

theorem euclid_in2_output_witness:
  "arrays_ok ((euclid_new 0)\<lparr>s_hits := 3, s_beats := 8\<rparr>) \<and>
   (\<exists>x'. euclid_in2 ((euclid_new 0)\<lparr>s_hits := 3, s_beats := 8\<rparr>) 130
      = Inr (x', [1, 0, 0, 1, 0, 1, 0, 0]))"
proof -
  have a: "arrays_ok ((euclid_new 0)\<lparr>s_hits := 3, s_beats := 8\<rparr>)"
    by (simp add: arrays_ok_def euclid_new_def)
  have g: "generate 3 8 128 False = [1, 0, 0, 1, 0, 1, 0, 0]" by code_simp
  show ?thesis using Pipeline.euclid_in2_output [OF a, of 130] a g by (simp add: euclid_new_def)
qed

theorem reachable_obj_inv_witness: "reachable (euclid_new 0) \<and> obj_inv (euclid_new 0)"
proof -
  have r: "reachable (euclid_new 0)" by (rule reachable.created)
  show ?thesis using Safety.reachable_obj_inv [OF r] r by simp
qed

theorem euclid_bang_pingpong_witness:
  "bang_ready ((euclid_new 0)\<lparr>s_hits := 3, s_beats := 8, s_lastElement := 7, s_pingPongFlag := 1\<rparr>) \<and>
   (\<exists>x' out. euclid_bang ((euclid_new 0)\<lparr>s_hits := 3, s_beats := 8, s_lastElement := 7,
        s_pingPongFlag := 1\<rparr>) = Inr (x', out) \<and> length out = 16 \<and> out ! 8 = out ! 7)"
proof -
  let ?x = "(euclid_new 0)\<lparr>s_hits := 3, s_beats := 8, s_lastElement := 7, s_pingPongFlag := 1\<rparr>"
  have r: "bang_ready ?x" by (simp add: bang_ready_def arrays_ok_def euclid_new_def)
  obtain x' out where e: "euclid_bang ?x = Inr (x', out)" and l: "length out = 2 * nat (s_beats ?x)"
    and m: "\<forall>i < nat (s_beats ?x). out ! (nat (s_beats ?x) + i) = out ! (nat (s_beats ?x) - 1 - i)"
    using Pipeline.euclid_bang_pingpong [OF r] by auto
  have b: "s_beats ?x = 8" by simp
  have "out ! 8 = out ! 7" using m [rule_format, of 0] b by simp
  then show ?thesis using r e l b by auto
qed

theorem euclid_thisOffset_rotate_witness:
  "euclid_thisOffset ((euclid_new 0)\<lparr>s_beats := 4, s_outputIntSequence := [1, 2, 3, 4]\<rparr>) 1
     = Inr ((euclid_new 0)\<lparr>s_beats := 4, s_outputIntSequence := [4, 1, 2, 3]\<rparr>)"
proof -
  have "rotate 3 [1, 2, 3, (4::int)] = [4, 1, 2, 3]" by code_simp
  then show ?thesis
    using Rotator.euclid_thisOffset_rotate
      [of "(euclid_new 0)\<lparr>s_beats := 4, s_outputIntSequence := [1, 2, 3, 4]\<rparr>" 1]
    by simp
qed

theorem euclid_ping_pong_index_witness:
  "\<exists>y. euclid_ping_pong ((euclid_new 0)\<lparr>s_beats := 2, s_outputIntSequence := [5, 7, 0, 0]\<rparr>) = Inr y \<and>
     s_outputIntSequence y ! 2 = 7"
  using Mirror.euclid_ping_pong_index
    [of "(euclid_new 0)\<lparr>s_beats := 2, s_outputIntSequence := [5, 7, 0, 0]\<rparr>" 0]
  by auto

theorem euclid_pattern_starts_with_hit_witness: "euclid_pattern 2 7 ! 0 = 1"
  using Pipeline.euclid_pattern_starts_with_hit [of 2 7] by simp

theorem euclid_prepare_sequence_buckets_witness:
  "\<exists>x'. euclid_prepare_sequence ((euclid_new 0)\<lparr>s_hits := 1, s_beats := 2\<rparr>) = Inr x' \<and>
     take 2 (s_Sequence x') = [''1'', ''0'']"
  using Bucket_Init.euclid_prepare_sequence_buckets [of "(euclid_new 0)\<lparr>s_hits := 1, s_beats := 2\<rparr>"]
  by (simp add: euclid_new_def initial_buckets_def)

theorem euclid_buffer_conserves_witness:
  "\<exists>x'. euclid 1 2 ((euclid_new 0)\<lparr>s_Sequence := [''1'', ''0''], s_lastElement := 1\<rparr>) = Inr x' \<and>
     mset (takeWhile (\<lambda>c. c \<noteq> NUL) (s_outputSequence x')) = mset ''010''"
proof -
  let ?x = "(euclid_new 0)\<lparr>s_Sequence := [''1'', ''0''], s_lastElement := 1\<rparr>"
  have b: "takeWhile (\<lambda>c. c \<noteq> NUL) (s_outputSequence ?x) = ''0''"
    by (simp add: euclid_new_def c_strcpy_def NUL_def)
  have n: "NUL \<in> set (s_outputSequence ?x)" by (simp add: euclid_new_def c_strcpy_def)
  have a: "active_buckets ?x = [''1'', ''0'']" by (simp add: active_buckets_def)
  show ?thesis using Distributor_Refinement.euclid_buffer_conserves [of ?x 1 2] b n a
    by (auto simp: no_nul_def NUL_def)
qed

theorem euclid_bang_buffer_length_witness:
  "bang_ready ((euclid_new 0)\<lparr>s_hits := 63, s_beats := 64, s_lastElement := 63\<rparr>) \<and>
   (\<exists>x' out. euclid_bang ((euclid_new 0)\<lparr>s_hits := 63, s_beats := 64, s_lastElement := 63\<rparr>)
      = Inr (x', out) \<and> c_strlen (s_outputSequence x') = 64)"
proof -
  let ?x = "(euclid_new 0)\<lparr>s_hits := 63, s_beats := 64, s_lastElement := 63\<rparr>"
  have r: "bang_ready ?x" by (simp add: bang_ready_def arrays_ok_def euclid_new_def)
  show ?thesis using Pipeline.euclid_bang_buffer_length [OF r] r by simp
qed


theorem euclid_rounds_log_witness:
  "euclid_rounds 34 55 = 8 \<and> 2 ^ euclid_rounds 34 55 \<le> (2 * 35 ^ 2 :: int)"
proof -
  have "euclid_rounds 34 55 = 8" by code_simp
  then show ?thesis using Distributor.euclid_rounds_log [of 34 55] by simp
qed


theorem euclid_message_output_type_witness:
  "obj_inv ((euclid_new 0)\<lparr>s_beats := 8, s_lastElement := 7\<rparr>) \<and>
   (\<exists>x' out. euclid_message ((euclid_new 0)\<lparr>s_beats := 8, s_lastElement := 7\<rparr>) (Msg_int 3)
      = Inr (x', [out]) \<and> set out \<subseteq> {0, 1} \<and>
      length out = (if s_pingPongFlag x' = 1 then 2 else 1) * nat (s_beats x'))"
proof -
  let ?x = "(euclid_new 0)\<lparr>s_beats := 8, s_lastElement := 7\<rparr>"
  have i: "obj_inv ?x" by (simp add: obj_inv_def obj_ranges_def arrays_ok_def euclid_new_def)
  obtain x' out where e: "euclid_message ?x (Msg_int 3) = Inr (x', [out])"
    using message_emits_one [OF i, of "Msg_int 3"] by (auto simp: emits_def)
  show ?thesis using Events.euclid_message_output_type [OF i e] i e by auto
qed

theorem euclid_bang_one_hit_witness:
  "bang_ready ((euclid_new 0)\<lparr>s_hits := 1, s_beats := 64, s_lastElement := 63\<rparr>) \<and>
   euclid_pattern 1 64 = 1 # replicate 63 0 \<and>
   (\<exists>x' out. euclid_bang ((euclid_new 0)\<lparr>s_hits := 1, s_beats := 64, s_lastElement := 63\<rparr>) =
      Inr (x', out) \<and> s_lastElement x' = 0 \<and> length (s_Sequence x' ! 0) = 64)"
proof -
  let ?x = "(euclid_new 0)\<lparr>s_hits := 1, s_beats := 64, s_lastElement := 63\<rparr>"
  have r: "bang_ready ?x" by (simp add: bang_ready_def arrays_ok_def euclid_new_def)
  have h: "s_hits ?x = 1" by simp
  show ?thesis using Laws.euclid_bang_one_hit [OF r h] r by auto
qed

theorem euclid_inlet_repeat_witness:
  "obj_inv ((euclid_new 0)\<lparr>s_beats := 8, s_lastElement := 7\<rparr>) \<and>
   (\<exists>x' out. euclid_run ((euclid_new 0)\<lparr>s_beats := 8, s_lastElement := 7\<rparr>) [Msg_in2 3, Msg_in2 3]
      = Inr (x', [out, out]))"
proof -
  let ?x = "(euclid_new 0)\<lparr>s_beats := 8, s_lastElement := 7\<rparr>"
  have i: "obj_inv ?x" by (simp add: obj_inv_def obj_ranges_def arrays_ok_def euclid_new_def)
  have b: "1 \<le> s_beats ?x" by simp
  show ?thesis using Laws.euclid_inlet_repeat [OF i b, of "Msg_in2 3" 3] i by simp
qed

theorem euclid_in2_periodic_witness:
  "obj_inv ((euclid_new 0)\<lparr>s_hits := 3, s_beats := 8, s_lastElement := 7\<rparr>) \<and>
   (\<exists>x1 x2 out. euclid_in2 ((euclid_new 0)\<lparr>s_hits := 3, s_beats := 8, s_lastElement := 7\<rparr>) 2 = Inr (x1, out) \<and>
      euclid_in2 ((euclid_new 0)\<lparr>s_hits := 3, s_beats := 8, s_lastElement := 7\<rparr>) 10 = Inr (x2, out))"
proof -
  let ?x = "(euclid_new 0)\<lparr>s_hits := 3, s_beats := 8, s_lastElement := 7\<rparr>"
  have i: "obj_inv ?x" by (simp add: obj_inv_def obj_ranges_def arrays_ok_def euclid_new_def)
  have b: "1 \<le> s_beats ?x" by simp
  show ?thesis using Laws.euclid_in2_periodic [OF i b, of 2] i by simp
qed

theorem euclid_message_no_fault_witness:
  "obj_inv ((euclid_new 0)\<lparr>s_beats := 8, s_lastElement := 7\<rparr>) \<and>
   mem_ok ((euclid_new 0)\<lparr>s_beats := 8, s_lastElement := 7\<rparr>) \<and>
   (\<exists>x' out. euclid_message ((euclid_new 0)\<lparr>s_beats := 8, s_lastElement := 7\<rparr>) (Msg_in2 300)
      = Inr (x', out) \<and> mem_ok x')"
proof -
  let ?x = "(euclid_new 0)\<lparr>s_beats := 8, s_lastElement := 7\<rparr>"
  have i: "obj_inv ?x" by (simp add: obj_inv_def obj_ranges_def arrays_ok_def euclid_new_def)
  have m: "mem_ok ?x" by (rule mem_ok_new) simp_all
  have b: "1 \<le> s_beats ?x" by simp
  obtain x' out where e: "euclid_message ?x (Msg_in2 300) = Inr (x', out)"
    and k: "s_beats x' < 64 \<longrightarrow> mem_ok x'"
    using Memory.euclid_message_no_fault [OF i m b, of "Msg_in2 300"] by blast
  have "s_beats x' = 8" using message_beats_next [OF i e] by simp
  then show ?thesis using i m e k by auto
qed

theorem euclid_message_fault_cases_witness:
  "obj_inv (euclid_new 0) \<and> mem_ok (euclid_new 0) \<and>
   euclid_message (euclid_new 0) (Msg_in2 5) = Inl Division_by_zero"
proof -
  have i: "obj_inv (euclid_new 0)" by (rule obj_inv_new)
  have m: "mem_ok (euclid_new 0)"
    using mem_ok_new [of 0 0 0] by (simp add: euclid_new_def)
  have z: "s_beats (euclid_new 0) = 0" by (simp add: euclid_new_def)
  have c: "(\<exists>e. euclid_message (euclid_new 0) (Msg_in2 5) = Inl e) \<and>
      (\<forall>e. euclid_message (euclid_new 0) (Msg_in2 5) = Inl e \<longrightarrow> e = Division_by_zero)"
    using Memory.euclid_message_fault_cases [OF i m, of "Msg_in2 5"] z by simp
  then obtain e where "euclid_message (euclid_new 0) (Msg_in2 5) = Inl e" "e = Division_by_zero" by blast
  then show ?thesis using i m by simp
qed

theorem euclid_run_live_witness:
  "obj_inv ((euclid_new 0)\<lparr>s_beats := 8, s_lastElement := 7\<rparr>) \<and>
   mem_ok ((euclid_new 0)\<lparr>s_beats := 8, s_lastElement := 7\<rparr>) \<and>
   (\<exists>x' outs. euclid_run ((euclid_new 0)\<lparr>s_beats := 8, s_lastElement := 7\<rparr>)
      [Msg_bang, Msg_pingpong 1, Msg_in1 12, Msg_in2 3, Msg_int 5] = Inr (x', outs) \<and>
      mem_ok x' \<and> length outs = 4)"
proof -
  let ?x = "(euclid_new 0)\<lparr>s_beats := 8, s_lastElement := 7\<rparr>"
  let ?ms = "[Msg_bang, Msg_pingpong 1, Msg_in1 12, Msg_in2 3, Msg_int 5]"
  have i: "obj_inv ?x" by (simp add: obj_inv_def obj_ranges_def arrays_ok_def euclid_new_def)
  have m: "mem_ok ?x" by (rule mem_ok_new) simp_all
  have b: "1 \<le> s_beats ?x" "s_beats ?x < 64" by simp_all
  have v: "\<forall>v. Msg_in1 v \<in> set ?ms \<longrightarrow> v < 64" by simp
  obtain x' outs where r: "euclid_run ?x ?ms = Inr (x', outs)" "mem_ok x'"
    and l: "length outs = length (filter emits ?ms)"
    using Memory.euclid_run_live [OF i m b v] by blast
  have "length (filter emits ?ms) = 4" by (simp add: emits_def)
  then show ?thesis using i m r l by auto
qed

end
